theory Spec2Isabelle
  imports Complex_Main "HOL-Library.Word" "HOL-Library.Multiset" "HOL-Library.List_Lexorder"
begin

section \<open>Keys, tables and reference counts\<close>

text \<open>
  Go's \<open>int64\<close> and \<open>uint64\<close> are 64-bit words: \<open>+\<close> and \<open>-\<close> wrap around,
  \<open>sint\<close> reads the signed value. Go's \<open>int\<close> (lengths, level numbers, option values) is
  modelled by \<open>int\<close>; a length never overflows it. A byte slice is a list of 8-bit words;
  the lexicographic order on lists is the order of \<open>bytes.Compare\<close>.
\<close>

type_synonym int64 = "64 word"
type_synonym uint64 = "64 word"
type_synonym bytes = "8 word list"

text \<open>
  Modelled from the spec: \<open>y.CompareKeys\<close> lives in package \<open>y\<close>, which is not part of
  the sources at hand. The spec (section 3) gives it as a total order on keys (user key
  ascending, then timestamp descending). Keys are therefore any linearly ordered type
  \<open>'k\<close>, and \<open>CompareKeys a b\<close> is negative, zero or positive as \<open>a\<close> is below, equal to
  or above \<open>b\<close>.
\<close>

definition CompareKeys :: "'k::linorder \<Rightarrow> 'k \<Rightarrow> int" where
  "CompareKeys a b = (if a < b then - 1 else if a = b then 0 else 1)"

text \<open>\<open>bytes.Compare\<close> of the Go standard library: lexicographic comparison of byte slices.\<close>

definition bytes_Compare :: "bytes \<Rightarrow> bytes \<Rightarrow> int" where
  "bytes_Compare a b = (if a < b then - 1 else if a = b then 0 else 1)"

text \<open>
  A \<open>*table.Table\<close>. The attributes read by the level handler never change once the table
  is open, so the handle is the record of them; the mutable reference count is kept apart,
  in a store indexed by the handle. File ids are unique, so two open tables differ in
  their records as they differ as objects.
\<close>

record 'k table =
  ID :: uint64
  Smallest :: 'k
  Biggest :: 'k
  Size :: int64

type_synonym 'k refs = "'k table \<Rightarrow> int"

datatype go_error = RemoveFailed uint64 | AppendFailed

datatype panic = AssertFailed | MakeSliceLenOutOfRange | IndexOutOfRange

text \<open>
  Modelled from the spec: \<open>IncrRef\<close> and \<open>DecrRef\<close> belong to package \<open>table\<close>. The spec
  says \<open>decr_ref\<close> deletes the file at zero; \<open>decrRefs\<close> below shows that it can fail. Whether
  removing the file of a table fails is the parameter \<open>rm_fails\<close>.
\<close>

definition IncrRef :: "'k table \<Rightarrow> 'k refs \<Rightarrow> 'k refs" where
  "IncrRef t r = r(t := r t + 1)"

definition DecrRef :: "('k table \<Rightarrow> bool) \<Rightarrow> 'k table \<Rightarrow> 'k refs \<Rightarrow> 'k refs \<times> go_error option" where
  "DecrRef rm_fails t r =
     (let r' = r(t := r t - 1)
      in (r', if r' t = 0 \<and> rm_fails t then Some (RemoveFailed (ID t)) else None))"

text \<open>\<open>decrRefs\<close>: nil entries are skipped, the first failure ends the loop.\<close>

fun decrRefs :: "('k table \<Rightarrow> bool) \<Rightarrow> 'k table option list \<Rightarrow> 'k refs \<Rightarrow> 'k refs \<times> go_error option" where
  "decrRefs rm_fails [] r = (r, None)"
| "decrRefs rm_fails (None # ts) r = decrRefs rm_fails ts r"
| "decrRefs rm_fails (Some t # ts) r =
     (case DecrRef rm_fails t r of
        (r', Some err) \<Rightarrow> (r', Some err)
      | (r', None) \<Rightarrow> decrRefs rm_fails ts r')"

text \<open>
  What \<open>decrRefs\<close> does, in words: the tables are dereferenced in order; the call stops
  at the first table whose count reaches zero while the removal of its file fails, with
  that failure, and the tables after it keep their counts. \<open>decr_fails_at rm_fails r ts i\<close>
  says that the \<open>i\<close>-th step is such a failure, when the counts were \<open>r\<close> at the start.
\<close>

definition decr_fails_at :: "('k table \<Rightarrow> bool) \<Rightarrow> 'k refs \<Rightarrow> 'k table list \<Rightarrow> nat \<Rightarrow> bool" where
  "decr_fails_at rm_fails r ts i =
     (rm_fails (ts ! i) \<and> r (ts ! i) - int (count_list (take (Suc i) ts) (ts ! i)) = 0)"

definition decrRefs_spec ::
  "('k table \<Rightarrow> bool) \<Rightarrow> 'k table list \<Rightarrow> 'k refs \<Rightarrow> 'k refs \<times> go_error option" where
  "decrRefs_spec rm_fails ts r =
     (case find (decr_fails_at rm_fails r ts) [0..<length ts] of
        None \<Rightarrow> (\<lambda>u. r u - int (count_list ts u), None)
      | Some i \<Rightarrow> (\<lambda>u. r u - int (count_list (take (Suc i) ts) u),
                   Some (RemoveFailed (ID (ts ! i)))))"

section \<open>The standard library's binary search\<close>

text \<open>
  \<open>sort.Search n f\<close>: the loop of the Go standard library, with \<open>i\<close> and \<open>j\<close> the bounds of
  the interval still to search.
\<close>

function search_loop :: "(nat \<Rightarrow> bool) \<Rightarrow> nat \<Rightarrow> nat \<Rightarrow> nat" where
  "search_loop f i j =
     (if i < j
      then (if \<not> f ((i + j) div 2)
            then search_loop f ((i + j) div 2 + 1) j
            else search_loop f i ((i + j) div 2))
      else i)"
  by pat_completeness auto
termination
  by (relation "measure (\<lambda>(f, i, j). j - i)") auto

declare search_loop.simps [simp del]

definition Search :: "nat \<Rightarrow> (nat \<Rightarrow> bool) \<Rightarrow> nat" where
  "Search n f = search_loop f 0 n"

section \<open>The level handler\<close>

text \<open>
  Modelled from the spec: \<open>keyRange\<close> is declared with the compaction status, outside
  the sources at hand. The spec gives it as \<open>{left, right, inf}\<close> with \<open>inf\<close> a distinguished
  value; \<open>infRange\<close> is that value, and \<open>KeyRange l r\<close> is a range with \<open>inf\<close> unset.
\<close>

datatype 'k keyRange = KeyRange (left: 'k) (right: 'k) | infRange

record 'k levelHandler =
  tables :: "'k table list"
  totalSize :: int64
  level :: int
  maxTotalSize :: int64

text \<open>The options of the database that the functions below read.\<close>

record Options =
  NumLevelZeroTables :: int
  NumLevelZeroTablesStall :: int

text \<open>
  \<open>assertTablesOrder\<close>: true when every assertion of the loop holds. The loop runs over
  the indices \<open>0 .. len - 2\<close>, so the last table is compared with nothing.
\<close>

fun assertTablesOrder :: "'k::linorder table list \<Rightarrow> bool" where
  "assertTablesOrder [] = True"
| "assertTablesOrder [t] = True"
| "assertTablesOrder (t # u # ts) =
     (CompareKeys (Smallest t) (Biggest t) \<le> 0 \<and>
      CompareKeys (Smallest t) (Smallest u) < 0 \<and>
      CompareKeys (Biggest t) (Biggest u) < 0 \<and>
      CompareKeys (Biggest t) (Smallest u) < 0 \<and>
      assertTablesOrder (u # ts))"

definition getTablesInRange :: "'k::linorder table list \<Rightarrow> 'k \<Rightarrow> 'k \<Rightarrow> nat \<times> nat" where
  "getTablesInRange tbls start end' =
     (Search (length tbls) (\<lambda>i. CompareKeys start (Biggest (tbls ! i)) \<le> 0),
      Search (length tbls) (\<lambda>i. CompareKeys end' (Smallest (tbls ! i)) < 0))"

definition overlappingTables :: "'k::linorder levelHandler \<Rightarrow> 'k keyRange \<Rightarrow> nat \<times> nat" where
  "overlappingTables s kr = getTablesInRange (tables s) (left kr) (right kr)"

text \<open>
  \<open>sort.Slice\<close> with a comparison function \<open>lt\<close>. The standard library promises no more
  than a permutation, sorted when \<open>lt\<close> is a strict weak order. The model is the insertion
  sort the library runs on slices of at most 12 elements: each element in turn moves
  left past the elements it is below. \<open>insert_less lt x ys\<close> inserts \<open>x\<close> into the part
  already sorted, given back to front (\<open>ys\<close> starts with the element just left of \<open>x\<close>).
\<close>

fun insert_less :: "('a \<Rightarrow> 'a \<Rightarrow> bool) \<Rightarrow> 'a \<Rightarrow> 'a list \<Rightarrow> 'a list" where
  "insert_less lt x [] = [x]"
| "insert_less lt x (y # ys) = (if lt x y then y # insert_less lt x ys else x # y # ys)"

definition sort_Slice :: "('a \<Rightarrow> 'a \<Rightarrow> bool) \<Rightarrow> 'a list \<Rightarrow> 'a list" where
  "sort_Slice lt xs = rev (fold (insert_less lt) xs [])"

text \<open>\<open>initTables\<close>.\<close>

definition initTables :: "'k::linorder levelHandler \<Rightarrow> 'k table list \<Rightarrow> 'k levelHandler" where
  "initTables s tbls =
     s\<lparr>tables :=
         (if level s = 0 then sort_Slice (\<lambda>a b. ID a < ID b) tbls
          else sort_Slice (\<lambda>a b. CompareKeys (Smallest a) (Smallest b) < 0) tbls),
       totalSize := fold (\<lambda>t acc. acc + Size t) tbls 0\<rparr>"

text \<open>\<open>newLevelHandler\<close>: no table, every other field zero.\<close>

definition newLevelHandler :: "int \<Rightarrow> 'k levelHandler" where
  "newLevelHandler lvl = \<lparr>tables = [], totalSize = 0, level = lvl, maxTotalSize = 0\<rparr>"

text \<open>
  \<open>replaceTables\<close>. The result is a panic, or the handler and the reference counts after
  the call together with the returned \<open>error\<close>. The three assertions on \<open>copy\<close> hold
  whenever \<open>left \<le> right\<close> (the slices have the lengths the code computes), so the new
  slice is the concatenation below; \<open>make\<close> panics on a negative length.
\<close>

definition replaceTables ::
  "('k table \<Rightarrow> bool) \<Rightarrow> 'k::linorder levelHandler \<Rightarrow> 'k refs \<Rightarrow> 'k table list
    \<Rightarrow> panic + ('k levelHandler \<times> 'k refs \<times> go_error option)" where
  "replaceTables rm_fails s refs newTables =
     (if length newTables = 0 then Inr (s, refs, None)
      else if \<not> assertTablesOrder newTables then Inl AssertFailed
      else
        (let (size1, refs1) =
               fold (\<lambda>tbl (sz, r). (sz + Size tbl, IncrRef tbl r)) newTables (totalSize s, refs);
             kr = KeyRange (Smallest (hd newTables)) (Biggest (last newTables));
             (left', right') = overlappingTables s kr
         in if right' < left' then Inl MakeSliceLenOutOfRange
            else
              (let toDecr = take (right' - left') (drop left' (tables s));
                   size2 = fold (\<lambda>tbl sz. sz - Size tbl) toDecr size1;
                   tables' = take left' (tables s) @ newTables @ drop right' (tables s)
               in if \<not> assertTablesOrder tables' then Inl AssertFailed
                  else
                    (case decrRefs rm_fails (map Some toDecr) refs1 of
                       (refs2, err) \<Rightarrow> Inr (s\<lparr>tables := tables', totalSize := size2\<rparr>, refs2, err)))))"

text \<open>\<open>tryAddLevel0Table\<close>: a panic, or the returned flag with the new state.\<close>

definition tryAddLevel0Table ::
  "Options \<Rightarrow> 'k levelHandler \<Rightarrow> 'k refs \<Rightarrow> 'k table
    \<Rightarrow> panic + (bool \<times> 'k levelHandler \<times> 'k refs)" where
  "tryAddLevel0Table opt s refs t =
     (if level s \<noteq> 0 then Inl AssertFailed
      else if int (length (tables s)) \<ge> NumLevelZeroTablesStall opt then Inr (False, s, refs)
      else Inr (True, s\<lparr>tables := tables s @ [t], totalSize := totalSize s + Size t\<rparr>,
                IncrRef t refs))"


text \<open>
  \<open>deleteTables\<close>. \<open>toDelMap\<close> is the set of the ids of \<open>toDel\<close>; the loop keeps the tables
  whose id is not in it and subtracts the size of each of the others.
\<close>

definition deleteTables ::
  "('k table \<Rightarrow> bool) \<Rightarrow> 'k::linorder levelHandler \<Rightarrow> 'k refs \<Rightarrow> 'k table list
    \<Rightarrow> panic + ('k levelHandler \<times> 'k refs \<times> go_error option)" where
  "deleteTables rm_fails s refs toDel =
     (let toDelMap = set (map ID toDel);
          (newTables, size') =
             fold (\<lambda>t (nt, sz). if ID t \<in> toDelMap then (nt, sz - Size t) else (nt @ [t], sz))
               (tables s) ([], totalSize s)
      in if level s \<noteq> 0 \<and> \<not> assertTablesOrder newTables then Inl AssertFailed
         else
           (case decrRefs rm_fails (map Some toDel) refs of
              (refs', err) \<Rightarrow> Inr (s\<lparr>tables := newTables, totalSize := size'\<rparr>, refs', err)))"

text \<open>\<open>numTables\<close>, \<open>getTotalSize\<close>.\<close>

definition numTables :: "'k levelHandler \<Rightarrow> int" where
  "numTables s = int (length (tables s))"

definition getTotalSize :: "'k levelHandler \<Rightarrow> int64" where
  "getTotalSize s = totalSize s"

text \<open>
  \<open>refLevel0Tables\<close>, \<open>refLevelNTable\<close> and \<open>refTablesForKey\<close>: the returned tables and
  the reference counts after the call. A nil result is \<open>None\<close>, a nil slice the empty list.
\<close>

definition refLevel0Tables :: "'k levelHandler \<Rightarrow> 'k refs \<Rightarrow> 'k table list \<times> 'k refs" where
  "refLevel0Tables s refs = (rev (tables s), fold IncrRef (rev (tables s)) refs)"

definition refLevelNTable ::
  "'k::linorder levelHandler \<Rightarrow> 'k refs \<Rightarrow> 'k \<Rightarrow> 'k table option \<times> 'k refs" where
  "refLevelNTable s refs key =
     (let idx = Search (length (tables s)) (\<lambda>i. CompareKeys (Biggest (tables s ! i)) key \<ge> 0)
      in if idx \<ge> length (tables s) then (None, refs)
         else (Some (tables s ! idx), IncrRef (tables s ! idx) refs))"

definition refTablesForKey ::
  "'k::linorder levelHandler \<Rightarrow> 'k refs \<Rightarrow> 'k \<Rightarrow> 'k table list \<times> 'k refs" where
  "refTablesForKey s refs key =
     (if level s = 0 then refLevel0Tables s refs
      else
        (case refLevelNTable s refs key of
           (None, refs') \<Rightarrow> ([], refs')
         | (Some tbl, refs') \<Rightarrow> ([tbl], refs')))"

text \<open>\<open>isCompactable\<close>: a signed comparison of 64-bit values, the sum wrapping around.\<close>

definition isCompactable :: "'k levelHandler \<Rightarrow> int64 \<Rightarrow> bool" where
  "isCompactable l deltaSize = (sint (getTotalSize l) \<ge> sint (maxTotalSize l + deltaSize))"

section \<open>The compaction status\<close>

text \<open>
  Modelled from the spec: the compaction status is not part of the sources at hand. The
  spec (sections 3 and 4.2) gives it as, for each level, the key ranges reserved by running
  compactions and a \<open>delta_size\<close>; \<open>overlaps_with(level, kr)\<close> is true iff a reserved range
  of the level overlaps \<open>kr\<close>; \<open>inf\<close> overlaps everything, and two other ranges overlap iff
  \<open>a.left \<le> b.right\<close> and \<open>b.left \<le> a.right\<close>.
\<close>

record 'k compactStatus =
  ranges :: "nat \<Rightarrow> 'k keyRange list"
  delSize :: "nat \<Rightarrow> int64"

fun keyRange_overlapsWith :: "'k::linorder keyRange \<Rightarrow> 'k keyRange \<Rightarrow> bool" where
  "keyRange_overlapsWith infRange dst = True"
| "keyRange_overlapsWith (KeyRange l r) infRange = True"
| "keyRange_overlapsWith (KeyRange l r) (KeyRange l' r') =
     (CompareKeys l r' \<le> 0 \<and> CompareKeys l' r \<le> 0)"


definition deltaSize :: "'k compactStatus \<Rightarrow> nat \<Rightarrow> int64" where
  "deltaSize cs lvl = delSize cs lvl"

section \<open>The levels controller\<close>

record 'k levelsController =
  levels :: "'k levelHandler list"
  cstatus :: "'k compactStatus"
  opt :: Options


definition isL0Compactable :: "'k levelsController \<Rightarrow> bool" where
  "isL0Compactable lc = (numTables (levels lc ! 0) \<ge> NumLevelZeroTables (opt lc))"







section \<open>Building tables: guards\<close>

text \<open>A byte slice that may be nil: \<open>None\<close> is nil, of length zero and read as empty.\<close>

definition len_bytes :: "bytes option \<Rightarrow> nat" where
  "len_bytes b = (case b of None \<Rightarrow> 0 | Some x \<Rightarrow> length x)"

definition read_bytes :: "bytes option \<Rightarrow> bytes" where
  "read_bytes b = (case b of None \<Rightarrow> [] | Some x \<Rightarrow> x)"

definition searchGuard :: "bytes \<Rightarrow> bytes list \<Rightarrow> bytes option" where
  "searchGuard key guards =
     (let idx = Search (length guards) (\<lambda>i. bytes_Compare key (guards ! i) < 0)
      in if idx < length guards \<and> idx \<ge> 0 then Some (guards ! idx) else None)"

text \<open>
  Of the table builder (package \<open>table\<close>) only \<open>ReachedCapacity\<close> is consulted; the builder
  is the record of that method.
\<close>

record Builder =
  ReachedCapacity :: "int64 \<Rightarrow> bool"

definition shouldFinishFile :: "bytes \<Rightarrow> bytes option \<Rightarrow> Builder \<Rightarrow> int64 \<Rightarrow> bool" where
  "shouldFinishFile key guard builder maxSize =
     (if len_bytes guard > 0 \<and> bytes_Compare key (read_bytes guard) > 0 then True
      else if ReachedCapacity builder maxSize then True
      else False)"

section \<open>The manifest change set\<close>

text \<open>
  Modelled from the spec: the manifest changes (section 6) are the tagged union
  \<open>{Create{id, level}, Delete{id}, MoveDown{id, level}}\<close>; the three functions that
  make them are declared with the manifest, outside the sources at hand.
\<close>

datatype ManifestChange = Create uint64 int | Delete uint64 | MoveDown uint64 int

definition makeTableCreateChange :: "uint64 \<Rightarrow> int \<Rightarrow> ManifestChange" where
  "makeTableCreateChange id' lvl = Create id' lvl"

definition makeTableDeleteChange :: "uint64 \<Rightarrow> ManifestChange" where
  "makeTableDeleteChange id' = Delete id'"

definition makeTableMoveDownChange :: "uint64 \<Rightarrow> int \<Rightarrow> ManifestChange" where
  "makeTableMoveDownChange id' lvl = MoveDown id' lvl"

record ManifestChangeSet =
  Changes :: "ManifestChange list"

record 'k compactDef =
  thisLevel :: "'k levelHandler"
  nextLevel :: "'k levelHandler"
  top :: "'k table list"
  bot :: "'k table list"
  thisRange :: "'k keyRange"
  nextRange :: "'k keyRange"
  thisSize :: int64

definition buildChangeSet :: "'k compactDef \<Rightarrow> 'k table list \<Rightarrow> bool \<Rightarrow> ManifestChangeSet" where
  "buildChangeSet cd newTables moveDown =
     (let changes = [];
          changes =
            (if moveDown
             then fold (\<lambda>tbl cs. cs @ [makeTableMoveDownChange (ID tbl) (level (nextLevel cd))])
                    newTables changes
             else
               (let changes =
                      fold (\<lambda>tbl cs. cs @ [makeTableCreateChange (ID tbl) (level (nextLevel cd))])
                        newTables changes;
                    changes = fold (\<lambda>tbl cs. cs @ [makeTableDeleteChange (ID tbl)]) (top cd) changes;
                    changes = fold (\<lambda>tbl cs. cs @ [makeTableDeleteChange (ID tbl)]) (bot cd) changes
                in changes))
      in \<lparr>Changes = changes\<rparr>)"

section \<open>Admission of a level-0 table\<close>

text \<open>
  \<open>addLevel0Table\<close> looks at the levels while compactions change them. In the model every
  look at the shared state (an attempt of \<open>tryAddLevel0Table\<close>, a round of the waiting
  loop) sees the next entry of a trace of states, each the levels controller with the
  reference counts at that moment. A trace that ends before the call returns leaves the call
  blocked. The flag of \<open>addLevel0Table_run\<close> says which loop is running: \<open>False\<close> at the
  head of the outer loop, \<open>True\<close> inside the waiting loop. The manifest is external:
  \<open>addChanges\<close> is its append, returning the error or nil. Logging and the sleep of 10 ms
  do not show in the model.
\<close>

datatype 'k admission =
  Panics panic | Blocked | ReturnsErr go_error | ReturnsNil "'k levelsController" "'k refs"

fun addLevel0Table_run ::
  "bool \<Rightarrow> 'k table \<Rightarrow> ('k levelsController \<times> 'k refs) list \<Rightarrow> 'k admission" where
  "addLevel0Table_run stalled t [] = Blocked"
| "addLevel0Table_run False t ((lc, refs) # rest) =
     (if levels lc = [] then Panics IndexOutOfRange
      else
        (case tryAddLevel0Table (opt lc) (levels lc ! 0) refs t of
           Inl p \<Rightarrow> Panics p
         | Inr (True, s', refs') \<Rightarrow> ReturnsNil (lc\<lparr>levels := (levels lc)[0 := s']\<rparr>) refs'
         | Inr (False, s', refs') \<Rightarrow> addLevel0Table_run True t rest))"
| "addLevel0Table_run True t ((lc, refs) # rest) =
     (if levels lc = [] then Panics IndexOutOfRange
      else if isL0Compactable lc then addLevel0Table_run True t rest
      else if length (levels lc) \<le> 1 then Panics IndexOutOfRange
      else if isCompactable (levels lc ! 1) 0 then addLevel0Table_run True t rest
      else addLevel0Table_run False t rest)"

definition addLevel0Table ::
  "(ManifestChange list \<Rightarrow> go_error option) \<Rightarrow> 'k table
    \<Rightarrow> ('k levelsController \<times> 'k refs) list \<Rightarrow> 'k admission" where
  "addLevel0Table addChanges t trace =
     (case addChanges [makeTableCreateChange (ID t) 0] of
        Some err \<Rightarrow> ReturnsErr err
      | None \<Rightarrow> addLevel0Table_run False t trace)"

text \<open>
  The state on which the waiting loop ends: level 0 is not compactable and level 1 is not
  compactable with a delta size of zero.
\<close>

definition unstalled :: "'k levelsController \<Rightarrow> bool" where
  "unstalled lc =
     (numTables (levels lc ! 0) < NumLevelZeroTables (opt lc)
      \<and> sint (totalSize (levels lc ! 1)) < sint (maxTotalSize (levels lc ! 1)))"

section \<open>The invariant of the levels above 0\<close>

text \<open>
  The spec's invariant of a level above 0: every table spans a proper key range (its
  smallest key is at most its biggest key), and each table ends strictly before the next
  one starts. It implies everything \<open>assertTablesOrder\<close> checks.
\<close>

definition valid_range :: "'k::linorder table \<Rightarrow> bool" where
  "valid_range t = (CompareKeys (Smallest t) (Biggest t) \<le> 0)"

definition levelN_invariant :: "'k::linorder table list \<Rightarrow> bool" where
  "levelN_invariant ts =
     (list_all valid_range ts \<and> successively (\<lambda>t u. CompareKeys (Biggest t) (Smallest u) < 0) ts)"

text \<open>The size accounting of a handler: the total size is the sum of the sizes of its tables.\<close>

definition size_accounted :: "'k levelHandler \<Rightarrow> bool" where
  "size_accounted s = (totalSize s = sum_list (map Size (tables s)))"

text \<open>
  A sequence of mutations of one handler, each \<open>replaceTables\<close> or \<open>deleteTables\<close>, run
  one after the other on the state the previous one left; a panic ends the run. The
  \<open>error\<close> a mutation returns comes after it has changed the handler and does not undo it.
\<close>

datatype 'k mutation = ReplaceTables "'k table list" | DeleteTables "'k table list"

fun apply_mutation ::
  "('k table \<Rightarrow> bool) \<Rightarrow> 'k::linorder levelHandler \<times> 'k refs \<Rightarrow> 'k mutation
    \<Rightarrow> panic + ('k levelHandler \<times> 'k refs)" where
  "apply_mutation rm_fails (s, refs) (ReplaceTables newTables) =
     (case replaceTables rm_fails s refs newTables of
        Inl p \<Rightarrow> Inl p | Inr (s', refs', err) \<Rightarrow> Inr (s', refs'))"
| "apply_mutation rm_fails (s, refs) (DeleteTables toDel) =
     (case deleteTables rm_fails s refs toDel of
        Inl p \<Rightarrow> Inl p | Inr (s', refs', err) \<Rightarrow> Inr (s', refs'))"

fun apply_mutations ::
  "('k table \<Rightarrow> bool) \<Rightarrow> 'k::linorder levelHandler \<times> 'k refs \<Rightarrow> 'k mutation list
    \<Rightarrow> panic + ('k levelHandler \<times> 'k refs)" where
  "apply_mutations rm_fails st [] = Inr st"
| "apply_mutations rm_fails st (m # ms) =
     (case apply_mutation rm_fails st m of
        Inl p \<Rightarrow> Inl p | Inr st' \<Rightarrow> apply_mutations rm_fails st' ms)"

section \<open>Example states\<close>

text \<open>
  Concrete tables and handlers for the examples below. Keys are written as numbers, in
  the order of \<open>CompareKeys\<close>.
\<close>

definition exampleT1 :: "nat table" where
  "exampleT1 = \<lparr>ID = 1, Smallest = 1, Biggest = 3, Size = 10\<rparr>"

definition exampleT2 :: "nat table" where
  "exampleT2 = \<lparr>ID = 2, Smallest = 7, Biggest = 9, Size = 20\<rparr>"

definition exampleL1 :: "nat levelHandler" where
  "exampleL1 = \<lparr>tables = [exampleT1, exampleT2], totalSize = 30, level = 1, maxTotalSize = 100\<rparr>"

definition exampleL0 :: "nat levelHandler" where
  "exampleL0 = \<lparr>tables = [exampleT1, exampleT2], totalSize = 30, level = 0, maxTotalSize = 0\<rparr>"

definition exampleT3 :: "nat table" where
  "exampleT3 = \<lparr>ID = 3, Smallest = 2, Biggest = 8, Size = 5\<rparr>"

definition exampleOpt :: Options where
  "exampleOpt = \<lparr>NumLevelZeroTables = 2, NumLevelZeroTablesStall = 3\<rparr>"

definition exampleCd :: "nat compactDef" where
  "exampleCd = \<lparr>thisLevel = exampleL0, nextLevel = exampleL1, top = [exampleT3],
                 bot = [exampleT1, exampleT2], thisRange = infRange,
                 nextRange = KeyRange 1 9, thisSize = 5\<rparr>"

definition exampleT4 :: "nat table" where
  "exampleT4 = \<lparr>ID = 4, Smallest = 1, Biggest = 9, Size = 33\<rparr>"

definition exampleT5 :: "nat table" where
  "exampleT5 = \<lparr>ID = 5, Smallest = 4, Biggest = 5, Size = 7\<rparr>"

definition exampleLc :: "nat levelsController" where
  "exampleLc =
     \<lparr>levels = [\<lparr>tables = [exampleT1, exampleT2, exampleT3], totalSize = 35, level = 0,
                  maxTotalSize = 0\<rparr>,
                 \<lparr>tables = [exampleT4, \<lparr>ID = 6, Smallest = 12, Biggest = 15, Size = 17\<rparr>],
                  totalSize = 50, level = 1, maxTotalSize = 20\<rparr>,
                 \<lparr>tables = [exampleT5], totalSize = 7, level = 2, maxTotalSize = 200\<rparr>],
       cstatus = \<lparr>ranges = \<lambda>l. [], delSize = \<lambda>l. 0\<rparr>,
       opt = exampleOpt\<rparr>"

definition exampleFullL1 :: "nat levelsController" where
  "exampleFullL1 =
     \<lparr>levels = [\<lparr>tables = [exampleT3], totalSize = 5, level = 0, maxTotalSize = 0\<rparr>,
                 \<lparr>tables = [exampleT1, exampleT2], totalSize = 30, level = 1, maxTotalSize = 30\<rparr>,
                 \<lparr>tables = [exampleT4], totalSize = 33, level = 2, maxTotalSize = 300\<rparr>],
       cstatus = \<lparr>ranges = \<lambda>l. [], delSize = \<lambda>l. 0\<rparr>,
       opt = exampleOpt\<rparr>"

definition exampleHealthy :: "nat levelsController" where
  "exampleHealthy =
     \<lparr>levels = [\<lparr>tables = [exampleT3], totalSize = 5, level = 0, maxTotalSize = 0\<rparr>,
                 \<lparr>tables = [exampleT1], totalSize = 10, level = 1, maxTotalSize = 30\<rparr>,
                 \<lparr>tables = [exampleT4], totalSize = 33, level = 2, maxTotalSize = 300\<rparr>],
       cstatus = \<lparr>ranges = \<lambda>l. [], delSize = \<lambda>l. 0\<rparr>,
       opt = exampleOpt\<rparr>"




section \<open>Comparisons and binary search\<close>

lemma CompareKeys_less [simp]: "CompareKeys a b < 0 \<longleftrightarrow> a < b"
  by (auto simp: CompareKeys_def)
lemma CompareKeys_le [simp]: "CompareKeys a b \<le> 0 \<longleftrightarrow> a \<le> b"
  by (auto simp: CompareKeys_def)
lemma CompareKeys_ge [simp]: "CompareKeys a b \<ge> 0 \<longleftrightarrow> b \<le> a"
  by (auto simp: CompareKeys_def)
lemma CompareKeys_gt [simp]: "CompareKeys a b > 0 \<longleftrightarrow> b < a"
  by (auto simp: CompareKeys_def)

lemma search_loop_bounds: "i \<le> j \<Longrightarrow> i \<le> search_loop f i j \<and> search_loop f i j \<le> j"
proof (induction f i j rule: search_loop.induct)
  case (1 f i j)
  show ?case
  proof (cases "i < j")
    case True
    then have h: "i \<le> (i + j) div 2" "(i + j) div 2 < j" by auto
    show ?thesis
    proof (cases "f ((i + j) div 2)")
      case fh: True
      have eq: "search_loop f i j = search_loop f i ((i + j) div 2)"
        using True fh by (subst search_loop.simps) simp
      show ?thesis using 1(2)[OF True] fh h eq by simp
    next
      case nfh: False
      have eq: "search_loop f i j = search_loop f ((i + j) div 2 + 1) j"
        using True nfh by (subst search_loop.simps) simp
      show ?thesis using 1(1)[OF True nfh] h eq by simp
    qed
  next
    case False
    then show ?thesis using 1(3) by (subst (1 2) search_loop.simps) auto
  qed
qed

lemma search_loop_found: "i \<le> j \<Longrightarrow> search_loop f i j < j \<Longrightarrow> f (search_loop f i j)"
proof (induction f i j rule: search_loop.induct)
  case (1 f i j)
  show ?case
  proof (cases "i < j")
    case True
    let ?h = "(i + j) div 2"
    show ?thesis
    proof (cases "f ?h")
      case fh: True
      have eq: "search_loop f i j = search_loop f i ?h" using True fh by (subst search_loop.simps) simp
      have b: "search_loop f i ?h \<le> ?h" using search_loop_bounds[of i ?h f] True by simp
      show ?thesis
      proof (cases "search_loop f i ?h < ?h")
        case True
        then show ?thesis using 1(2)[OF \<open>i < j\<close>] fh \<open>i < j\<close> eq by simp
      next
        case False
        then show ?thesis using b fh eq by simp
      qed
    next
      case nfh: False
      have eq: "search_loop f i j = search_loop f (?h + 1) j" using True nfh by (subst search_loop.simps) simp
      show ?thesis using 1(1)[OF \<open>i < j\<close> nfh] 1(3,4) True eq by simp
    qed
  next
    case False
    then show ?thesis using 1(3,4) by (subst (asm) search_loop.simps) auto
  qed
qed

lemma search_loop_before: "i \<le> j \<Longrightarrow> i < search_loop f i j \<Longrightarrow> \<not> f (search_loop f i j - 1)"
proof (induction f i j rule: search_loop.induct)
  case (1 f i j)
  show ?case
  proof (cases "i < j")
    case True
    let ?h = "(i + j) div 2"
    show ?thesis
    proof (cases "f ?h")
      case fh: True
      have eq: "search_loop f i j = search_loop f i ?h" using True fh by (subst search_loop.simps) simp
      show ?thesis using 1(2)[OF \<open>i < j\<close>] fh 1(3,4) True eq by simp
    next
      case nfh: False
      have eq: "search_loop f i j = search_loop f (?h + 1) j" using True nfh by (subst search_loop.simps) simp
      have b: "?h + 1 \<le> search_loop f (?h + 1) j" using search_loop_bounds[of "?h + 1" j f] True by simp
      show ?thesis
      proof (cases "?h + 1 < search_loop f (?h + 1) j")
        case True
        then show ?thesis using 1(1)[OF \<open>i < j\<close> nfh] \<open>i < j\<close> eq by simp
      next
        case False
        then have "search_loop f (?h + 1) j = ?h + 1" using b by simp
        then show ?thesis using nfh eq by simp
      qed
    qed
  next
    case False
    then show ?thesis using 1(3,4) by (subst (asm) search_loop.simps) auto
  qed
qed


lemma Search_le: "Search n f \<le> n"
  using search_loop_bounds[of 0 n f] by (simp add: Search_def)

lemma Search_found: "Search n f < n \<Longrightarrow> f (Search n f)"
  using search_loop_found[of 0 n f] by (simp add: Search_def)

lemma Search_before: "0 < Search n f \<Longrightarrow> \<not> f (Search n f - 1)"
  using search_loop_before[of 0 n f] by (simp add: Search_def)

lemma Search_mono_below:
  assumes mono: "\<And>a b. a \<le> b \<Longrightarrow> b < n \<Longrightarrow> f a \<Longrightarrow> f b" and k: "k < Search n f"
  shows "\<not> f k"
proof
  assume fk: "f k"
  have pos: "0 < Search n f" using k by simp
  have "Search n f - 1 < n" using Search_le[of n f] pos by simp
  moreover have "k \<le> Search n f - 1" using k by simp
  ultimately have "f (Search n f - 1)" using mono fk by blast
  then show False using Search_before[OF pos] by simp
qed

lemma Search_mono_above:
  assumes mono: "\<And>a b. a \<le> b \<Longrightarrow> b < n \<Longrightarrow> f a \<Longrightarrow> f b" and k: "Search n f \<le> k" "k < n"
  shows "f k"
proof -
  have "Search n f < n" using k by simp
  then have "f (Search n f)" by (rule Search_found)
  then show ?thesis using mono k by blast
qed

lemma Search_takeWhile:
  assumes mono: "\<And>a b. a \<le> b \<Longrightarrow> b < length xs \<Longrightarrow> P (xs ! a) \<Longrightarrow> P (xs ! b)"
  shows "Search (length xs) (\<lambda>i. P (xs ! i)) = length (takeWhile (\<lambda>x. \<not> P x) xs)"
proof -
  let ?r = "Search (length xs) (\<lambda>i. P (xs ! i))"
  have le: "?r \<le> length xs" by (rule Search_le)
  have below: "\<And>i. i < ?r \<Longrightarrow> \<not> P (xs ! i)"
    using Search_mono_below[of "length xs" "\<lambda>i. P (xs ! i)"] mono by blast
  have at: "?r < length xs \<Longrightarrow> \<not> \<not> P (xs ! ?r)"
    using Search_found[of "length xs" "\<lambda>i. P (xs ! i)"] by simp
  have "takeWhile (\<lambda>x. \<not> P x) xs = take ?r xs"
    by (rule takeWhile_eq_take_P_nth) (use below at in auto)
  then show ?thesis using le by simp
qed

lemma find_takeWhile:
  "find P xs = (if length (takeWhile (\<lambda>x. \<not> P x) xs) < length xs
                then Some (xs ! length (takeWhile (\<lambda>x. \<not> P x) xs)) else None)"
  by (induction xs) auto

lemma assertTablesOrder_successively:
  "assertTablesOrder ts =
     successively (\<lambda>t u. Smallest t \<le> Biggest t \<and> Smallest t < Smallest u \<and>
                          Biggest t < Biggest u \<and> Biggest t < Smallest u) ts"
  by (induction ts rule: assertTablesOrder.induct) auto

lemma assertTablesOrder_Biggest:
  assumes "assertTablesOrder ts"
  shows "sorted_wrt (\<lambda>t u. Biggest t < Biggest u) ts"
proof -
  have "successively (\<lambda>t u. Biggest t < Biggest u) ts"
    using assms unfolding assertTablesOrder_successively by (rule successively_mono) auto
  moreover have "transp (\<lambda>t u :: 'a table. Biggest t < Biggest u)"
    by (auto simp: transp_def)
  ultimately show ?thesis by (simp add: successively_conv_sorted_wrt)
qed

lemma assertTablesOrder_Smallest:
  assumes "assertTablesOrder ts"
  shows "sorted_wrt (\<lambda>t u. Smallest t < Smallest u) ts"
proof -
  have "successively (\<lambda>t u. Smallest t < Smallest u) ts"
    using assms unfolding assertTablesOrder_successively by (rule successively_mono) auto
  moreover have "transp (\<lambda>t u :: 'a table. Smallest t < Smallest u)"
    by (auto simp: transp_def)
  ultimately show ?thesis by (simp add: successively_conv_sorted_wrt)
qed

lemma assertTablesOrder_adjacent:
  assumes "assertTablesOrder ts"
  shows "successively (\<lambda>t u. Biggest t < Smallest u) ts"
  using assms unfolding assertTablesOrder_successively by (rule successively_mono) auto

lemma Biggest_mono_nth:
  assumes "assertTablesOrder ts" "a \<le> b" "b < length ts"
  shows "Biggest (ts ! a) \<le> Biggest (ts ! b)"
proof (cases "a = b")
  case False
  then have "a < b" using assms by simp
  then have "Biggest (ts ! a) < Biggest (ts ! b)"
    using assertTablesOrder_Biggest[OF assms(1)] assms(3) by (simp add: sorted_wrt_iff_nth_less)
  then show ?thesis by simp
qed simp

lemma Smallest_mono_nth:
  assumes "assertTablesOrder ts" "a \<le> b" "b < length ts"
  shows "Smallest (ts ! a) \<le> Smallest (ts ! b)"
proof (cases "a = b")
  case False
  then have "a < b" using assms by simp
  then have "Smallest (ts ! a) < Smallest (ts ! b)"
    using assertTablesOrder_Smallest[OF assms(1)] assms(3) by (simp add: sorted_wrt_iff_nth_less)
  then show ?thesis by simp
qed simp

lemma refLevelNTable_find:
  assumes "assertTablesOrder (tables s)"
  shows "refLevelNTable s refs key =
           (case find (\<lambda>t. key \<le> Biggest t) (tables s) of
              None \<Rightarrow> (None, refs) | Some t \<Rightarrow> (Some t, IncrRef t refs))"
proof -
  have mono: "\<And>a b. a \<le> b \<Longrightarrow> b < length (tables s) \<Longrightarrow> key \<le> Biggest (tables s ! a)
                \<Longrightarrow> key \<le> Biggest (tables s ! b)"
    using Biggest_mono_nth[OF assms] by (meson order_trans)
  have "Search (length (tables s)) (\<lambda>i. key \<le> Biggest (tables s ! i))
          = length (takeWhile (\<lambda>t. \<not> key \<le> Biggest t) (tables s))"
    using Search_takeWhile[of "tables s" "\<lambda>t. key \<le> Biggest t"] mono by blast
  then show ?thesis
    by (simp add: refLevelNTable_def Let_def find_takeWhile[of "\<lambda>t. key \<le> Biggest t"])
qed

section \<open>Looking up the table of a key\<close>

lemma Biggest_less_Smallest_nth:
  assumes ord: "assertTablesOrder ts" and ab: "a < b" "b < length ts"
  shows "Biggest (ts ! a) < Smallest (ts ! b)"
proof -
  obtain c where c: "b = Suc c" using ab by (cases b) auto
  have "Biggest (ts ! a) \<le> Biggest (ts ! c)"
    using Biggest_mono_nth[OF ord, of a c] ab c by simp
  moreover have "Biggest (ts ! c) < Smallest (ts ! Suc c)"
    using successively_nth[OF assertTablesOrder_adjacent[OF ord], of c] ab c by simp
  ultimately show ?thesis using c by simp
qed

lemma find_first_nth:
  assumes "i < length xs" "P (xs ! i)" "\<And>j. j < i \<Longrightarrow> \<not> P (xs ! j)"
  shows "find P xs = Some (xs ! i)"
  using assms by (auto simp: find_Some_iff)

lemma refTablesForKey_find:
  assumes "level s \<noteq> 0" "assertTablesOrder (tables s)"
  shows "refTablesForKey s refs key =
           (case find (\<lambda>t. key \<le> Biggest t) (tables s) of
              None \<Rightarrow> ([], refs) | Some t \<Rightarrow> ([t], IncrRef t refs))"
  using assms by (simp add: refTablesForKey_def refLevelNTable_find split: option.splits)

lemma find_containing:
  assumes ord: "assertTablesOrder ts" and t: "t \<in> set ts" "Smallest t \<le> key" "key \<le> Biggest t"
  shows "find (\<lambda>t. key \<le> Biggest t) ts = Some t"
proof -
  obtain i where i: "i < length ts" "ts ! i = t" using t(1) by (auto simp: in_set_conv_nth)
  have "\<not> key \<le> Biggest (ts ! j)" if "j < i" for j
    using Biggest_less_Smallest_nth[OF ord that i(1)] i(2) t(2) by auto
  then show ?thesis using find_first_nth[of i ts "\<lambda>t. key \<le> Biggest t"] i t(3) by auto
qed

text \<open>
  C1 (amended). At a level other than 0 whose tables pass \<open>assertTablesOrder\<close> (sorted,
  not overlapping), \<open>refTablesForKey\<close> returns the first table whose biggest key is at
  least the key, with its reference count incremented, and nothing when the key is above
  every biggest key. A table whose range contains the key is that first table. The result
  is empty only when every table's biggest key is below the key.
\<close>

theorem refTablesForKey_levelN:
  assumes "level s \<ge> 1" and "assertTablesOrder (tables s)"
  shows "refTablesForKey s refs key =
           (case find (\<lambda>t. key \<le> Biggest t) (tables s) of
              None \<Rightarrow> ([], refs) | Some t \<Rightarrow> ([t], IncrRef t refs))
         \<and> (\<forall>t \<in> set (tables s). Smallest t \<le> key \<and> key \<le> Biggest t
                \<longrightarrow> refTablesForKey s refs key = ([t], IncrRef t refs))
         \<and> (fst (refTablesForKey s refs key) = [] \<longleftrightarrow> (\<forall>t \<in> set (tables s). Biggest t < key))"
proof -
  have lv: "level s \<noteq> 0" using assms(1) by simp
  note eq = refTablesForKey_find[OF lv assms(2), of refs key]
  have a: "\<forall>t \<in> set (tables s). Smallest t \<le> key \<and> key \<le> Biggest t
             \<longrightarrow> refTablesForKey s refs key = ([t], IncrRef t refs)"
    using find_containing[OF assms(2)] eq by auto
  have b: "fst (refTablesForKey s refs key) = [] \<longleftrightarrow> (\<forall>t \<in> set (tables s). Biggest t < key)"
  proof (cases "find (\<lambda>t. key \<le> Biggest t) (tables s)")
    case None
    have "fst (refTablesForKey s refs key) = []" using None eq by simp
    moreover have "\<forall>t \<in> set (tables s). Biggest t < key"
      using None by (auto simp: find_None_iff not_le)
    ultimately show ?thesis by simp
  next
    case (Some u)
    have "fst (refTablesForKey s refs key) \<noteq> []" using Some eq by simp
    moreover have "u \<in> set (tables s)" "key \<le> Biggest u"
      using Some by (auto simp: find_Some_iff)
    ultimately show ?thesis by (auto simp: not_less)
  qed
  show ?thesis using eq a b by blast
qed

theorem refTablesForKey_levelN_witness:
  "level exampleL1 \<ge> 1 \<and> assertTablesOrder (tables exampleL1)
   \<and> refTablesForKey exampleL1 (\<lambda>t. 1) 8 = ([exampleT2], IncrRef exampleT2 (\<lambda>t. 1))
   \<and> fst (refTablesForKey exampleL1 (\<lambda>t. 1) 2) = [exampleT1]
   \<and> fst (refTablesForKey exampleL1 (\<lambda>t. 1) 10) = []"
proof -
  have h: "level exampleL1 \<ge> 1" "assertTablesOrder (tables exampleL1)"
    by (simp_all add: exampleL1_def exampleT1_def exampleT2_def)
  show ?thesis
    using h refTablesForKey_levelN[OF h, of "\<lambda>t. 1" 8]
      refTablesForKey_levelN[OF h, of "\<lambda>t. 1" 2] refTablesForKey_levelN[OF h, of "\<lambda>t. 1" 10]
    by (simp add: exampleL1_def exampleT1_def exampleT2_def)
qed

text \<open>
  C1 as stated fails for a key in a gap: no table of the example contains key 5, and the
  result is the table after the gap, not the empty set.
\<close>

theorem refTablesForKey_gap_counterexample:
  "level exampleL1 \<ge> 1 \<and> assertTablesOrder (tables exampleL1)
   \<and> \<not> list_ex (\<lambda>t. Smallest t \<le> 5 \<and> 5 \<le> Biggest t) (tables exampleL1)
   \<and> fst (refTablesForKey exampleL1 (\<lambda>t. 1) 5) = [exampleT2]"
  by (simp add: exampleL1_def exampleT1_def exampleT2_def refTablesForKey_def refLevelNTable_def
      Search_def search_loop.simps Let_def)

section \<open>Replacing by no tables\<close>

text \<open>
  C10. \<open>replaceTables\<close> with an empty list of new tables returns nil and changes nothing:
  the handler (its tables, also those a compaction with no output had overlapped, and its
  total size) and every reference count are as before.
\<close>

theorem replaceTables_empty:
  "replaceTables rm_fails s refs [] = Inr (s, refs, None)"
  by (simp add: replaceTables_def)

theorem replaceTables_empty_witness:
  "replaceTables (\<lambda>t. False) exampleL1 (\<lambda>t. 1) [] = Inr (exampleL1, \<lambda>t. 1, None)"
  using replaceTables_empty[of "\<lambda>t. False" exampleL1 "\<lambda>t. 1"] by simp

section \<open>Adding a table to level 0\<close>

text \<open>
  C9. \<open>tryAddLevel0Table\<close> asserts that the level is 0. At level 0 it returns false
  exactly when the handler holds at least \<open>NumLevelZeroTablesStall\<close> tables, and then
  changes nothing; otherwise it returns true, the table is appended at the end, its
  reference count is one higher and the total size has grown by its size.
\<close>

theorem tryAddLevel0Table_spec:
  "(level s \<noteq> 0 \<longrightarrow> tryAddLevel0Table opts s refs t = Inl AssertFailed)
   \<and> (level s = 0 \<longrightarrow>
        (\<exists>ok s' refs'. tryAddLevel0Table opts s refs t = Inr (ok, s', refs')
           \<and> (\<not> ok \<longleftrightarrow> int (length (tables s)) \<ge> NumLevelZeroTablesStall opts)
           \<and> (\<not> ok \<longrightarrow> s' = s \<and> refs' = refs)
           \<and> (ok \<longrightarrow> tables s' = tables s @ [t]
                    \<and> refs' t = refs t + 1 \<and> (\<forall>u. u \<noteq> t \<longrightarrow> refs' u = refs u)
                    \<and> totalSize s' = totalSize s + Size t
                    \<and> level s' = level s \<and> maxTotalSize s' = maxTotalSize s)))"
  by (auto simp: tryAddLevel0Table_def IncrRef_def)

theorem tryAddLevel0Table_spec_witness:
  "tryAddLevel0Table exampleOpt exampleL0 (\<lambda>t. 1) exampleT3
     = Inr (True, exampleL0\<lparr>tables := [exampleT1, exampleT2, exampleT3], totalSize := 35\<rparr>,
            (\<lambda>t. 1)(exampleT3 := 2))
   \<and> tryAddLevel0Table exampleOpt (exampleL0\<lparr>tables := [exampleT1, exampleT2, exampleT3]\<rparr>)
        (\<lambda>t. 1) exampleT3
     = Inr (False, exampleL0\<lparr>tables := [exampleT1, exampleT2, exampleT3]\<rparr>, \<lambda>t. 1)
   \<and> tryAddLevel0Table exampleOpt exampleL1 (\<lambda>t. 1) exampleT3 = Inl AssertFailed"
  using tryAddLevel0Table_spec[of exampleL0 exampleOpt "\<lambda>t. 1" exampleT3]
    tryAddLevel0Table_spec[of "exampleL0\<lparr>tables := [exampleT1, exampleT2, exampleT3]\<rparr>" exampleOpt "\<lambda>t. 1" exampleT3]
    tryAddLevel0Table_spec[of exampleL1 exampleOpt "\<lambda>t. 1" exampleT3]
  by (simp add: tryAddLevel0Table_def IncrRef_def exampleL0_def exampleL1_def exampleOpt_def
      exampleT1_def exampleT2_def exampleT3_def)

section \<open>The change set of a compaction\<close>

lemma fold_snoc_map: "fold (\<lambda>x acc. acc @ [f x]) xs acc = acc @ map f xs"
  by (induction xs arbitrary: acc) auto

text \<open>
  C7. The change set built for a compaction is, for a move-down, one \<open>MoveDown\<close> change to
  the next level per new table and nothing else; otherwise it is one \<open>Create\<close> change at
  the next level per new table, then one \<open>Delete\<close> change per table of \<open>top\<close>, then one
  per table of \<open>bot\<close>, and nothing else.
\<close>

theorem buildChangeSet_changes:
  "Changes (buildChangeSet cd newTables moveDown) =
     (if moveDown
      then map (\<lambda>t. MoveDown (ID t) (level (nextLevel cd))) newTables
      else map (\<lambda>t. Create (ID t) (level (nextLevel cd))) newTables
           @ map (\<lambda>t. Delete (ID t)) (top cd) @ map (\<lambda>t. Delete (ID t)) (bot cd))"
  by (simp add: buildChangeSet_def fold_snoc_map makeTableMoveDownChange_def
      makeTableCreateChange_def makeTableDeleteChange_def)

theorem buildChangeSet_changes_witness:
  "Changes (buildChangeSet exampleCd [exampleT4] False) = [Create 4 1, Delete 3, Delete 1, Delete 2]
   \<and> Changes (buildChangeSet exampleCd [exampleT4] True) = [MoveDown 4 1]"
  using buildChangeSet_changes[of exampleCd "[exampleT4]" False]
    buildChangeSet_changes[of exampleCd "[exampleT4]" True]
  by (simp add: exampleCd_def exampleL1_def exampleT1_def exampleT2_def exampleT3_def exampleT4_def)

section \<open>Guards\<close>

lemma bytes_Compare_less [simp]: "bytes_Compare a b < 0 \<longleftrightarrow> a < b"
  by (auto simp: bytes_Compare_def)

lemma bytes_Compare_gt [simp]: "bytes_Compare a b > 0 \<longleftrightarrow> b < a"
  by (auto simp: bytes_Compare_def)

lemma searchGuard_not_empty: "searchGuard key guards = Some g \<Longrightarrow> key < g"
proof -
  assume a: "searchGuard key guards = Some g"
  let ?r = "Search (length guards) (\<lambda>i. bytes_Compare key (guards ! i) < 0)"
  have "?r < length guards" "g = guards ! ?r"
    using a by (auto simp: searchGuard_def Let_def split: if_splits)
  then show "key < g"
    using Search_found[of "length guards" "\<lambda>i. bytes_Compare key (guards ! i) < 0"] by simp
qed

lemma searchGuard_find:
  assumes "sorted guards"
  shows "searchGuard key guards = find (\<lambda>g. key < g) guards"
proof -
  have mono: "\<And>a b. a \<le> b \<Longrightarrow> b < length guards \<Longrightarrow> key < guards ! a \<Longrightarrow> key < guards ! b"
    using assms by (meson less_le_trans sorted_nth_mono)
  have "Search (length guards) (\<lambda>i. key < guards ! i)
          = length (takeWhile (\<lambda>g. \<not> key < g) guards)"
    using Search_takeWhile[of guards "\<lambda>g. key < g"] mono by blast
  then show ?thesis
    by (simp add: searchGuard_def Let_def find_takeWhile[of "\<lambda>g. key < g"])
qed

text \<open>
  C8. \<open>shouldFinishFile\<close> is true exactly when the guard is set (not empty) and the key is
  strictly above it, or the builder has reached the maximal size. For sorted guards,
  \<open>searchGuard\<close> returns the first guard strictly above the key, or nil when every guard
  is at most the key. A guard returned by \<open>searchGuard\<close> is never empty, so for the
  guards the compaction uses, being set is being not nil.
\<close>

theorem shouldFinishFile_searchGuard:
  "(shouldFinishFile key guard builder maxSize \<longleftrightarrow>
      (\<exists>g. guard = Some g \<and> g \<noteq> [] \<and> g < key) \<or> ReachedCapacity builder maxSize)
   \<and> (sorted guards \<longrightarrow>
        searchGuard k guards = find (\<lambda>g. k < g) guards
        \<and> (searchGuard k guards = None \<longleftrightarrow> (\<forall>g \<in> set guards. g \<le> k))
        \<and> (shouldFinishFile key (searchGuard k guards) builder maxSize \<longleftrightarrow>
              (\<exists>g. searchGuard k guards = Some g \<and> g < key) \<or> ReachedCapacity builder maxSize))"
proof -
  have a: "shouldFinishFile key guard builder maxSize \<longleftrightarrow>
      (\<exists>g. guard = Some g \<and> g \<noteq> [] \<and> g < key) \<or> ReachedCapacity builder maxSize" for guard
    by (cases guard) (auto simp: shouldFinishFile_def len_bytes_def read_bytes_def)
  have b: "searchGuard k guards = Some g \<Longrightarrow> g \<noteq> []" for g
    using searchGuard_not_empty[of k guards g] by auto
  have c: "shouldFinishFile key (searchGuard k guards) builder maxSize \<longleftrightarrow>
              (\<exists>g. searchGuard k guards = Some g \<and> g < key) \<or> ReachedCapacity builder maxSize"
    unfolding a using b by blast
  have d: "sorted guards \<Longrightarrow> (searchGuard k guards = None \<longleftrightarrow> (\<forall>g \<in> set guards. g \<le> k))"
    by (auto simp: searchGuard_find find_None_iff not_less)
  show ?thesis using a c d searchGuard_find by blast
qed

theorem shouldFinishFile_searchGuard_witness:
  "sorted [[0x62], [0x6D], [0x78 :: 8 word]]
   \<and> searchGuard [0x63, 0x61] [[0x62], [0x6D], [0x78]] = Some [0x6D]
   \<and> searchGuard [0x78] [[0x62], [0x6D], [0x78]] = None
   \<and> shouldFinishFile [0x6E] (Some [0x6D]) \<lparr>ReachedCapacity = \<lambda>m. False\<rparr> 100
   \<and> \<not> shouldFinishFile [0x6D] (Some [0x6D]) \<lparr>ReachedCapacity = \<lambda>m. False\<rparr> 100
   \<and> \<not> shouldFinishFile [0x6E] None \<lparr>ReachedCapacity = \<lambda>m. False\<rparr> 100
   \<and> shouldFinishFile [0x61] None \<lparr>ReachedCapacity = \<lambda>m. True\<rparr> 100"
proof -
  have s: "sorted [[0x62], [0x6D], [0x78 :: 8 word]]" by simp
  show ?thesis
    using s
      shouldFinishFile_searchGuard[of "[0x6E]" "Some [0x6D]" "\<lparr>ReachedCapacity = \<lambda>m. False\<rparr>" 100
        "[[0x62], [0x6D], [0x78]]" "[0x63, 0x61]"]
      shouldFinishFile_searchGuard[of "[0x6D]" "Some [0x6D]" "\<lparr>ReachedCapacity = \<lambda>m. False\<rparr>" 100
        "[[0x62], [0x6D], [0x78]]" "[0x78]"]
      shouldFinishFile_searchGuard[of "[0x6E]" None "\<lparr>ReachedCapacity = \<lambda>m. False\<rparr>" 100
        "[[0x62], [0x6D], [0x78]]" "[0x78]"]
      shouldFinishFile_searchGuard[of "[0x61]" None "\<lparr>ReachedCapacity = \<lambda>m. True\<rparr>" 100
        "[[0x62], [0x6D], [0x78]]" "[0x78]"]
    by simp
qed

section \<open>The loops of the table mutations in closed form\<close>

lemma fold_add_Size: "fold (\<lambda>t acc. acc + Size t) ts (acc :: int64) = acc + sum_list (map Size ts)"
  by (induction ts arbitrary: acc) (auto simp: add.assoc)

lemma fold_sub_Size: "fold (\<lambda>t sz. sz - Size t) ts (sz :: int64) = sz - sum_list (map Size ts)"
  by (induction ts arbitrary: sz) (auto simp: algebra_simps)

lemma fold_add_IncrRef:
  "fold (\<lambda>tbl (sz, r). (sz + Size tbl, IncrRef tbl r)) ts (sz :: int64, r)
     = (sz + sum_list (map Size ts), fold IncrRef ts r)"
  by (induction ts arbitrary: sz r) (auto simp: add.assoc)

lemma fold_delete:
  "fold (\<lambda>t (nt, sz). if ID t \<in> D then (nt, sz - Size t) else (nt @ [t], sz)) ts (nt, sz :: int64)
     = (nt @ filter (\<lambda>t. ID t \<notin> D) ts, sz - sum_list (map Size (filter (\<lambda>t. ID t \<in> D) ts)))"
  by (induction ts arbitrary: nt sz) (auto simp: algebra_simps)

lemma sum_list_filter_split:
  "sum_list (map Size (filter P ts)) + sum_list (map Size (filter (\<lambda>t. \<not> P t) ts))
     = (sum_list (map Size ts) :: int64)"
  by (induction ts) (auto simp: algebra_simps)

lemma fold_IncrRef_count: "fold IncrRef ts r t = r t + int (count_list ts t)"
  by (induction ts arbitrary: r) (auto simp: IncrRef_def)

lemma decrRefs_no_failure:
  "(\<And>t. \<not> rm_fails t) \<Longrightarrow>
     decrRefs rm_fails (map Some ts) r = (\<lambda>t. r t - int (count_list ts t), None)"
  by (induction ts arbitrary: r) (auto simp: DecrRef_def Let_def fun_eq_iff)

lemma decrRefs_append:
  "decrRefs rm_fails (xs @ ys) r =
     (case decrRefs rm_fails xs r of
        (r', Some e) \<Rightarrow> (r', Some e)
      | (r', None) \<Rightarrow> decrRefs rm_fails ys r')"
  by (induction rm_fails xs r rule: decrRefs.induct) (auto split: prod.splits option.splits)

lemma decr_fails_at_snoc:
  "i < length ts \<Longrightarrow> decr_fails_at rm_fails r (ts @ [t]) i = decr_fails_at rm_fails r ts i"
  by (simp add: decr_fails_at_def nth_append)

lemma find_fails_snoc:
  "find (decr_fails_at rm_fails r (ts @ [t])) [0..<length ts]
     = find (decr_fails_at rm_fails r ts) [0..<length ts]"
  by (rule find_cong) (simp_all add: decr_fails_at_snoc)

lemma find_snoc:
  "find P (xs @ [x]) = (case find P xs of None \<Rightarrow> (if P x then Some x else None) | Some y \<Rightarrow> Some y)"
  by (induction xs) auto

lemma decrRefs_first_failure:
  "decrRefs rm_fails (map Some ts) r = decrRefs_spec rm_fails ts r"
proof (induction ts rule: rev_induct)
  case Nil
  show ?case by (simp add: decrRefs_spec_def)
next
  case (snoc t ts)
  let ?P = "decr_fails_at rm_fails r (ts @ [t])"
  have fnd: "find ?P [0..<length (ts @ [t])]
               = (case find (decr_fails_at rm_fails r ts) [0..<length ts] of
                    None \<Rightarrow> (if ?P (length ts) then Some (length ts) else None)
                  | Some y \<Rightarrow> Some y)"
    by (simp add: find_snoc find_fails_snoc)
  show ?case
  proof (cases "find (decr_fails_at rm_fails r ts) [0..<length ts]")
    case None
    have run: "decrRefs rm_fails (map Some ts) r = (\<lambda>u. r u - int (count_list ts u), None)"
      using snoc None by (simp add: decrRefs_spec_def)
    have last: "?P (length ts) \<longleftrightarrow> rm_fails t \<and> r t - int (count_list ts t) - 1 = 0"
      by (auto simp: decr_fails_at_def)
    have dr: "DecrRef rm_fails t (\<lambda>u. r u - int (count_list ts u))
                = (\<lambda>u. r u - int (count_list (ts @ [t]) u),
                   if ?P (length ts) then Some (RemoveFailed (ID t)) else None)"
      by (auto simp: DecrRef_def Let_def last fun_eq_iff)
    have step: "decrRefs rm_fails (map Some (ts @ [t])) r
                  = (\<lambda>u. r u - int (count_list (ts @ [t]) u),
                     if ?P (length ts) then Some (RemoveFailed (ID t)) else None)"
      by (simp add: decrRefs_append run dr del: count_list_append)
    show ?thesis
      unfolding step decrRefs_spec_def fnd using None by simp
  next
    case (Some i)
    then have i: "i < length ts" by (auto simp: find_Some_iff)
    have run: "decrRefs rm_fails (map Some ts) r
                 = (\<lambda>u. r u - int (count_list (take (Suc i) ts) u),
                    Some (RemoveFailed (ID (ts ! i))))"
      using snoc Some by (simp add: decrRefs_spec_def)
    have step: "decrRefs rm_fails (map Some (ts @ [t])) r
                 = (\<lambda>u. r u - int (count_list (take (Suc i) ts) u),
                    Some (RemoveFailed (ID (ts ! i))))"
      using run by (simp add: decrRefs_append)
    show ?thesis
      unfolding step decrRefs_spec_def fnd using Some i by (simp add: nth_append)
  qed
qed

lemma deleteTables_closed:
  "deleteTables rm_fails s refs toDel =
     (if level s \<noteq> 0 \<and> \<not> assertTablesOrder (filter (\<lambda>t. ID t \<notin> ID ` set toDel) (tables s))
      then Inl AssertFailed
      else Inr (s\<lparr>tables := filter (\<lambda>t. ID t \<notin> ID ` set toDel) (tables s),
                  totalSize := totalSize s
                     - sum_list (map Size (filter (\<lambda>t. ID t \<in> ID ` set toDel) (tables s)))\<rparr>,
                fst (decrRefs rm_fails (map Some toDel) refs),
                snd (decrRefs rm_fails (map Some toDel) refs)))"
  by (simp add: deleteTables_def fold_delete Let_def split: prod.splits)

lemma replaceTables_closed:
  assumes "newTables \<noteq> []"
    and "getTablesInRange (tables s) (Smallest (hd newTables)) (Biggest (last newTables)) = (l, r)"
  shows "replaceTables rm_fails s refs newTables =
     (if \<not> assertTablesOrder newTables then Inl AssertFailed
      else if r < l then Inl MakeSliceLenOutOfRange
      else if \<not> assertTablesOrder (take l (tables s) @ newTables @ drop r (tables s))
      then Inl AssertFailed
      else Inr (s\<lparr>tables := take l (tables s) @ newTables @ drop r (tables s),
                  totalSize := totalSize s + sum_list (map Size newTables)
                     - sum_list (map Size (take (r - l) (drop l (tables s))))\<rparr>,
                fst (decrRefs rm_fails (map Some (take (r - l) (drop l (tables s))))
                       (fold IncrRef newTables refs)),
                snd (decrRefs rm_fails (map Some (take (r - l) (drop l (tables s))))
                       (fold IncrRef newTables refs))))"
  using assms
  by (simp add: replaceTables_def overlappingTables_def fold_add_IncrRef fold_sub_Size Let_def
      split: prod.splits)

section \<open>The invariant and the mutations\<close>

lemma levelN_invariant_Cons:
  "levelN_invariant (t # ts) \<longleftrightarrow>
     Smallest t \<le> Biggest t \<and> (ts = [] \<or> Biggest t < Smallest (hd ts)) \<and> levelN_invariant ts"
  by (auto simp: levelN_invariant_def valid_range_def successively_Cons)

lemma levelN_invariant_assert: "levelN_invariant ts \<Longrightarrow> assertTablesOrder ts"
proof (induction ts rule: assertTablesOrder.induct)
  case (3 t u ts)
  then have "Smallest t \<le> Biggest t" "Biggest t < Smallest u" "Smallest u \<le> Biggest u"
    "levelN_invariant (u # ts)"
    by (auto simp: levelN_invariant_Cons)
  then show ?case using 3 by auto
qed simp_all

lemma assert_sorted_wrt:
  assumes "assertTablesOrder ts"
  shows "sorted_wrt (\<lambda>t u. Biggest t < Smallest u) ts"
  using Biggest_less_Smallest_nth[OF assms] by (simp add: sorted_wrt_iff_nth_less)

lemma levelN_invariant_sorted_wrt:
  "levelN_invariant ts \<longleftrightarrow>
     list_all valid_range ts \<and> sorted_wrt (\<lambda>t u. Biggest t < Smallest u) ts"
proof
  assume a: "levelN_invariant ts"
  then show "list_all valid_range ts \<and> sorted_wrt (\<lambda>t u. Biggest t < Smallest u) ts"
    using assert_sorted_wrt[OF levelN_invariant_assert[OF a]] by (simp add: levelN_invariant_def)
next
  assume "list_all valid_range ts \<and> sorted_wrt (\<lambda>t u. Biggest t < Smallest u) ts"
  then show "levelN_invariant ts"
    using successively_if_sorted_wrt[of "\<lambda>t u. Biggest t < Smallest u" ts]
    by (simp add: levelN_invariant_def)
qed

lemma levelN_invariant_adjacent:
  "levelN_invariant ts \<Longrightarrow> successively (\<lambda>t u. Biggest t < Smallest u) ts"
  by (simp add: levelN_invariant_def)

lemma levelN_invariant_filter: "levelN_invariant ts \<Longrightarrow> levelN_invariant (filter P ts)"
  unfolding levelN_invariant_sorted_wrt
  by (auto simp: sorted_wrt_filter list_all_iff)

lemma levelN_invariant_range: "levelN_invariant ts \<Longrightarrow> t \<in> set ts \<Longrightarrow> Smallest t \<le> Biggest t"
  by (auto simp: levelN_invariant_def valid_range_def list_all_iff)

text \<open>The first table starts first and the last table ends last.\<close>

lemma hd_Smallest_least:
  assumes "assertTablesOrder ts" "t \<in> set ts"
  shows "Smallest (hd ts) \<le> Smallest t"
proof -
  obtain i where i: "i < length ts" "ts ! i = t" using assms(2) by (auto simp: in_set_conv_nth)
  have "ts \<noteq> []" using assms(2) by auto
  then have "hd ts = ts ! 0" by (simp add: hd_conv_nth)
  then show ?thesis using Smallest_mono_nth[OF assms(1), of 0 i] i by simp
qed

lemma last_Biggest_greatest:
  assumes "assertTablesOrder ts" "t \<in> set ts"
  shows "Biggest t \<le> Biggest (last ts)"
proof -
  obtain i where i: "i < length ts" "ts ! i = t" using assms(2) by (auto simp: in_set_conv_nth)
  have "ts \<noteq> []" using assms(2) by auto
  then have "last ts = ts ! (length ts - 1)" by (simp add: last_conv_nth)
  then show ?thesis using Biggest_mono_nth[OF assms(1), of i "length ts - 1"] i by simp
qed

text \<open>What the two binary searches of \<open>getTablesInRange\<close> find on ordered tables.\<close>

lemma getTablesInRange_ordered:
  assumes ord: "assertTablesOrder ts" and g: "getTablesInRange ts start end' = (l, r)"
  shows "l \<le> length ts" "r \<le> length ts"
    "\<And>i. i < length ts \<Longrightarrow> l \<le> i \<longleftrightarrow> start \<le> Biggest (ts ! i)"
    "\<And>i. i < length ts \<Longrightarrow> i < r \<longleftrightarrow> Smallest (ts ! i) \<le> end'"
proof -
  let ?f = "\<lambda>i. start \<le> Biggest (ts ! i)" and ?g = "\<lambda>i. end' < Smallest (ts ! i)"
  have l: "l = Search (length ts) ?f" and r: "r = Search (length ts) ?g"
    using g by (simp_all add: getTablesInRange_def)
  show "l \<le> length ts" "r \<le> length ts" unfolding l r by (rule Search_le)+
  have monof: "\<And>a b. a \<le> b \<Longrightarrow> b < length ts \<Longrightarrow> ?f a \<Longrightarrow> ?f b"
    using Biggest_mono_nth[OF ord] by (meson order_trans)
  have monog: "\<And>a b. a \<le> b \<Longrightarrow> b < length ts \<Longrightarrow> ?g a \<Longrightarrow> ?g b"
    using Smallest_mono_nth[OF ord] by (meson less_le_trans)
  show "l \<le> i \<longleftrightarrow> start \<le> Biggest (ts ! i)" if "i < length ts" for i
    using Search_mono_below[of "length ts" ?f i] Search_mono_above[of "length ts" ?f i] monof that
    unfolding l by (meson not_le)
  show "i < r \<longleftrightarrow> Smallest (ts ! i) \<le> end'" if "i < length ts" for i
    using Search_mono_below[of "length ts" ?g i] Search_mono_above[of "length ts" ?g i] monog that
    unfolding r by (meson not_le)
qed

lemma splice_invariant:
  assumes inv: "levelN_invariant ts" and new: "levelN_invariant new" "new \<noteq> []"
    and g: "getTablesInRange ts (Smallest (hd new)) (Biggest (last new)) = (l, r)"
  shows "l \<le> r \<and> levelN_invariant (take l ts @ new @ drop r ts)"
proof -
  let ?L = "Smallest (hd new)" and ?R = "Biggest (last new)"
  note ord = levelN_invariant_assert[OF inv]
  note ordn = levelN_invariant_assert[OF new(1)]
  note facts = getTablesInRange_ordered[OF ord g]
  have hd_in: "hd new \<in> set new" using new(2) by simp
  have LR: "?L \<le> ?R"
    using levelN_invariant_range[OF new(1) hd_in] last_Biggest_greatest[OF ordn hd_in] by simp
  have before: "Biggest x < ?L" if xin: "x \<in> set (take l ts)" for x
  proof -
    obtain i where "i < length (take l ts)" "take l ts ! i = x"
      using xin by (meson in_set_conv_nth)
    then have i: "i < l" "i < length ts" "x = ts ! i" by auto
    then show ?thesis using facts(3)[of i] by (simp add: not_le)
  qed
  have after: "?R < Smallest y" if yin: "y \<in> set (drop r ts)" for y
  proof -
    obtain j where "j < length (drop r ts)" "drop r ts ! j = y"
      using yin by (meson in_set_conv_nth)
    then have j: "j < length ts - r" "y = ts ! (r + j)" by auto
    then have "r + j < length ts" by simp
    then show ?thesis using facts(4)[of "r + j"] j by (simp add: not_le)
  qed
  have lr: "l \<le> r"
  proof (rule ccontr)
    assume "\<not> l \<le> r"
    then have rl: "r < l" by simp
    then have rn: "r < length ts" using facts(1) by simp
    have "Biggest (ts ! r) < ?L" using facts(3)[OF rn] rl by (simp add: not_le)
    moreover have "?R < Smallest (ts ! r)" using facts(4)[OF rn] by (simp add: not_le)
    moreover have "Smallest (ts ! r) \<le> Biggest (ts ! r)"
      using levelN_invariant_range[OF inv] rn by simp
    ultimately show False using LR by simp
  qed
  have inv': "list_all valid_range ts" "sorted_wrt (\<lambda>t u. Biggest t < Smallest u) ts"
    using inv by (simp_all add: levelN_invariant_sorted_wrt)
  have new': "list_all valid_range new" "sorted_wrt (\<lambda>t u. Biggest t < Smallest u) new"
    using new(1) by (simp_all add: levelN_invariant_sorted_wrt)
  have v: "list_all valid_range (take l ts @ new @ drop r ts)"
    using inv'(1) new'(1) by (auto simp: list_all_iff dest: in_set_takeD in_set_dropD)
  have s1: "sorted_wrt (\<lambda>t u. Biggest t < Smallest u) (take l ts)"
    using inv'(2) by (rule sorted_wrt_take)
  have s2: "sorted_wrt (\<lambda>t u. Biggest t < Smallest u) (drop r ts)"
    using inv'(2) by (rule sorted_wrt_drop)
  have c1: "Biggest x < Smallest y" if "x \<in> set (take l ts)" "y \<in> set new" for x y
    using before[OF that(1)] hd_Smallest_least[OF ordn that(2)] by simp
  have c2: "Biggest x < Smallest y" if "x \<in> set new" "y \<in> set (drop r ts)" for x y
    using after[OF that(2)] last_Biggest_greatest[OF ordn that(1)] by simp
  have c3: "Biggest x < Smallest y" if "x \<in> set (take l ts)" "y \<in> set (drop r ts)" for x y
    using before[OF that(1)] after[OF that(2)] LR by simp
  have "sorted_wrt (\<lambda>t u. Biggest t < Smallest u) (take l ts @ new @ drop r ts)"
    using s1 s2 new'(2) c1 c2 c3 by (auto simp: sorted_wrt_append)
  then show ?thesis using v lr by (simp add: levelN_invariant_sorted_wrt)
qed

lemma replaceTables_invariant:
  assumes inv: "levelN_invariant (tables s)" and new: "levelN_invariant new" "new \<noteq> []"
    and g: "getTablesInRange (tables s) (Smallest (hd new)) (Biggest (last new)) = (l, r)"
  shows "replaceTables rm_fails s refs new =
     Inr (s\<lparr>tables := take l (tables s) @ new @ drop r (tables s),
            totalSize := totalSize s + sum_list (map Size new)
               - sum_list (map Size (take (r - l) (drop l (tables s))))\<rparr>,
          fst (decrRefs rm_fails (map Some (take (r - l) (drop l (tables s)))) (fold IncrRef new refs)),
          snd (decrRefs rm_fails (map Some (take (r - l) (drop l (tables s)))) (fold IncrRef new refs)))"
proof -
  have "l \<le> r" "levelN_invariant (take l (tables s) @ new @ drop r (tables s))"
    using splice_invariant[OF inv new g] by simp_all
  then show ?thesis
    using replaceTables_closed[OF new(2) g, of rm_fails refs]
      levelN_invariant_assert[OF new(1)] levelN_invariant_assert
    by (simp add: not_less)
qed

section \<open>Replacing tables\<close>

text \<open>
  The splice and the size arithmetic of \<open>replaceTables\<close> on handlers that satisfy the
  invariant, with the reference counts as \<open>decrRefs\<close> leaves them.
\<close>

lemma replaceTables_splice_base:
  assumes "levelN_invariant (tables s)" and "newTables \<noteq> []" and "levelN_invariant newTables"
  shows "\<exists>l r.
      overlappingTables s (KeyRange (Smallest (hd newTables)) (Biggest (last newTables))) = (l, r)
      \<and> l \<le> r \<and> r \<le> length (tables s)
      \<and> (\<forall>i < length (tables s).
            (l \<le> i \<and> i < r) \<longleftrightarrow>
            keyRange_overlapsWith (KeyRange (Smallest (tables s ! i)) (Biggest (tables s ! i)))
              (KeyRange (Smallest (hd newTables)) (Biggest (last newTables))))
      \<and> (\<exists>refs' err.
            replaceTables rm_fails s refs newTables =
              Inr (s\<lparr>tables := take l (tables s) @ newTables @ drop r (tables s),
                     totalSize := totalSize s + sum_list (map Size newTables)
                        - sum_list (map Size (take (r - l) (drop l (tables s))))\<rparr>,
                   refs', err)
            \<and> (refs', err) =
                 decrRefs rm_fails (map Some (take (r - l) (drop l (tables s))))
                   (fold IncrRef newTables refs)
            \<and> ((\<forall>t. \<not> rm_fails t) \<longrightarrow>
                 err = None
                 \<and> (\<forall>t. refs' t = refs t + int (count_list newTables t)
                            - int (count_list (take (r - l) (drop l (tables s))) t))))"
proof -
  obtain l r where g:
    "getTablesInRange (tables s) (Smallest (hd newTables)) (Biggest (last newTables)) = (l, r)"
    by (cases "getTablesInRange (tables s) (Smallest (hd newTables)) (Biggest (last newTables))")
  note ord = levelN_invariant_assert[OF assms(1)]
  note facts = getTablesInRange_ordered[OF ord g]
  have lr: "l \<le> r" using splice_invariant[OF assms(1) assms(3) assms(2) g] by simp
  let ?dec = "take (r - l) (drop l (tables s))"
  let ?res = "decrRefs rm_fails (map Some ?dec) (fold IncrRef newTables refs)"
  have ov: "overlappingTables s (KeyRange (Smallest (hd newTables)) (Biggest (last newTables))) = (l, r)"
    using g by (simp add: overlappingTables_def)
  have idx: "\<forall>i < length (tables s).
            (l \<le> i \<and> i < r) \<longleftrightarrow>
            keyRange_overlapsWith (KeyRange (Smallest (tables s ! i)) (Biggest (tables s ! i)))
              (KeyRange (Smallest (hd newTables)) (Biggest (last newTables)))"
    using facts(3,4) by auto
  have run: "replaceTables rm_fails s refs newTables =
              Inr (s\<lparr>tables := take l (tables s) @ newTables @ drop r (tables s),
                     totalSize := totalSize s + sum_list (map Size newTables)
                        - sum_list (map Size ?dec)\<rparr>,
                   fst ?res, snd ?res)"
    by (rule replaceTables_invariant[OF assms(1) assms(3) assms(2) g])
  have nofail: "(\<forall>t. \<not> rm_fails t) \<longrightarrow>
                 snd ?res = None
                 \<and> (\<forall>t. fst ?res t = refs t + int (count_list newTables t) - int (count_list ?dec t))"
    by (auto simp: decrRefs_no_failure fold_IncrRef_count)
  show ?thesis
    using ov lr facts(2) idx run nofail by (intro exI conjI) (assumption | simp)+
qed

text \<open>
  C2 (amended). On a handler whose tables satisfy the invariant, for a non-empty list of
  new tables that satisfies it too, \<open>replaceTables\<close> does not panic. With \<open>kr\<close> from the
  smallest key of the first new table to the biggest key of the last one, \<open>[l, r)\<close> are
  the indices of exactly the tables that overlap \<open>kr\<close>; the new tables take the place of
  \<open>tables[l..r)\<close>; the total size grows by the sizes of the new tables and shrinks by the
  sizes of the replaced ones. The replaced tables are not returned: after the reference
  count of every new table has been incremented, the call itself decrements the reference
  counts of the replaced tables in order, up to and including the first one whose count
  reaches zero while the removal of its file fails; the tables after that one keep their
  counts, and the call returns that failure, or nil when there is none.
\<close>

theorem replaceTables_splice:
  assumes "levelN_invariant (tables s)" and "newTables \<noteq> []" and "levelN_invariant newTables"
  shows "\<exists>l r.
      overlappingTables s (KeyRange (Smallest (hd newTables)) (Biggest (last newTables))) = (l, r)
      \<and> l \<le> r \<and> r \<le> length (tables s)
      \<and> (\<forall>i < length (tables s).
            (l \<le> i \<and> i < r) \<longleftrightarrow>
            keyRange_overlapsWith (KeyRange (Smallest (tables s ! i)) (Biggest (tables s ! i)))
              (KeyRange (Smallest (hd newTables)) (Biggest (last newTables))))
      \<and> (\<exists>refs' err.
            replaceTables rm_fails s refs newTables =
              Inr (s\<lparr>tables := take l (tables s) @ newTables @ drop r (tables s),
                     totalSize := totalSize s + sum_list (map Size newTables)
                        - sum_list (map Size (take (r - l) (drop l (tables s))))\<rparr>,
                   refs', err)
            \<and> (refs', err) =
                 decrRefs rm_fails (map Some (take (r - l) (drop l (tables s))))
                   (fold IncrRef newTables refs)
            \<and> (refs', err) =
                 decrRefs_spec rm_fails (take (r - l) (drop l (tables s)))
                   (\<lambda>t. refs t + int (count_list newTables t))
            \<and> ((\<forall>t. \<not> rm_fails t) \<longrightarrow>
                 err = None
                 \<and> (\<forall>t. refs' t = refs t + int (count_list newTables t)
                            - int (count_list (take (r - l) (drop l (tables s))) t))))"
proof -
  let ?refs1 = "\<lambda>t. refs t + int (count_list newTables t)"
  have r1: "fold IncrRef newTables refs = ?refs1"
    by (simp add: fun_eq_iff fold_IncrRef_count)
  from replaceTables_splice_base[OF assms, of rm_fails refs]
  obtain l r refs' err where
    a: "overlappingTables s (KeyRange (Smallest (hd newTables)) (Biggest (last newTables))) = (l, r)"
      "l \<le> r" "r \<le> length (tables s)"
      "\<forall>i < length (tables s).
            (l \<le> i \<and> i < r) \<longleftrightarrow>
            keyRange_overlapsWith (KeyRange (Smallest (tables s ! i)) (Biggest (tables s ! i)))
              (KeyRange (Smallest (hd newTables)) (Biggest (last newTables)))"
    and b: "replaceTables rm_fails s refs newTables =
              Inr (s\<lparr>tables := take l (tables s) @ newTables @ drop r (tables s),
                     totalSize := totalSize s + sum_list (map Size newTables)
                        - sum_list (map Size (take (r - l) (drop l (tables s))))\<rparr>,
                   refs', err)"
    and c: "(refs', err) =
                 decrRefs rm_fails (map Some (take (r - l) (drop l (tables s))))
                   (fold IncrRef newTables refs)"
    and d: "(\<forall>t. \<not> rm_fails t) \<longrightarrow>
                 err = None
                 \<and> (\<forall>t. refs' t = refs t + int (count_list newTables t)
                            - int (count_list (take (r - l) (drop l (tables s))) t))"
    by blast
  have e: "(refs', err) =
                 decrRefs_spec rm_fails (take (r - l) (drop l (tables s))) ?refs1"
    using c unfolding r1 decrRefs_first_failure .
  show ?thesis
    using a b c d e by (intro exI conjI) (assumption | simp)+
qed

theorem replaceTables_splice_witness:
  "levelN_invariant (tables exampleL1) \<and> [exampleT4] \<noteq> [] \<and> levelN_invariant [exampleT4]
   \<and> overlappingTables exampleL1 (KeyRange 1 9) = (0, 2)
   \<and> (\<exists>refs'. replaceTables (\<lambda>t. False) exampleL1 (\<lambda>t. 1) [exampleT4] =
         Inr (exampleL1\<lparr>tables := [exampleT4], totalSize := 33\<rparr>, refs', None)
       \<and> refs' exampleT1 = 0 \<and> refs' exampleT2 = 0 \<and> refs' exampleT4 = 2)
   \<and> (\<exists>refs'. replaceTables (\<lambda>t. ID t = 1) exampleL1 (\<lambda>t. 1) [exampleT4] =
         Inr (exampleL1\<lparr>tables := [exampleT4], totalSize := 33\<rparr>, refs',
              Some (RemoveFailed 1))
       \<and> refs' exampleT1 = 0 \<and> refs' exampleT2 = 1 \<and> refs' exampleT4 = 2)"
proof -
  have h: "levelN_invariant (tables exampleL1)" "[exampleT4] \<noteq> []" "levelN_invariant [exampleT4]"
    by (simp_all add: levelN_invariant_def valid_range_def exampleL1_def exampleT1_def
        exampleT2_def exampleT4_def)
  have ov: "overlappingTables exampleL1 (KeyRange 1 9) = (0, 2)"
    by (simp add: overlappingTables_def getTablesInRange_def Search_def search_loop.simps
        exampleL1_def exampleT1_def exampleT2_def)
  have k: "Smallest (hd [exampleT4]) = 1" "Biggest (last [exampleT4]) = 9"
    by (simp_all add: exampleT4_def)
  have ts: "tables exampleL1 = [exampleT1, exampleT2]" "totalSize exampleL1 = 30"
    by (simp_all add: exampleL1_def)
  have sz: "Size exampleT1 = 10" "Size exampleT2 = 20" "Size exampleT4 = 33"
    by (simp_all add: exampleT1_def exampleT2_def exampleT4_def)
  have ne: "exampleT1 \<noteq> exampleT2" "exampleT1 \<noteq> exampleT4" "exampleT2 \<noteq> exampleT4"
    "exampleT2 \<noteq> exampleT1" "exampleT4 \<noteq> exampleT1" "exampleT4 \<noteq> exampleT2"
    by (simp_all add: exampleT1_def exampleT2_def exampleT4_def)
  have ids: "ID exampleT1 = 1" "ID exampleT2 = 2"
    by (simp_all add: exampleT1_def exampleT2_def)
  have sp0: "decrRefs_spec (\<lambda>t. False) [exampleT1, exampleT2]
               (\<lambda>t. 1 + int (count_list [exampleT4] t))
             = (\<lambda>t. 1 + int (count_list [exampleT4] t)
                       - int (count_list [exampleT1, exampleT2] t), None)"
    by (simp add: decrRefs_spec_def decr_fails_at_def upt_rec[of 0] upt_rec[of 1])
  have sp1: "decrRefs_spec (\<lambda>t. ID t = 1) [exampleT1, exampleT2]
               (\<lambda>t. 1 + int (count_list [exampleT4] t))
             = (\<lambda>t. 1 + int (count_list [exampleT4] t) - int (count_list [exampleT1] t),
                Some (RemoveFailed 1))"
    using ne ids by (simp add: decrRefs_spec_def decr_fails_at_def upt_rec[of 0])
  have run0: "\<exists>refs'. replaceTables (\<lambda>t. False) exampleL1 (\<lambda>t. 1) [exampleT4] =
         Inr (exampleL1\<lparr>tables := [exampleT4], totalSize := 33\<rparr>, refs', None)
       \<and> refs' exampleT1 = 0 \<and> refs' exampleT2 = 0 \<and> refs' exampleT4 = 2"
  proof -
    from replaceTables_splice[OF h, of "\<lambda>t. False" "\<lambda>t. 1"]
    obtain l r refs' err where
      o: "overlappingTables exampleL1
            (KeyRange (Smallest (hd [exampleT4])) (Biggest (last [exampleT4]))) = (l, r)"
      and run: "replaceTables (\<lambda>t. False) exampleL1 (\<lambda>t. 1) [exampleT4] =
              Inr (exampleL1\<lparr>tables := take l (tables exampleL1) @ [exampleT4]
                                 @ drop r (tables exampleL1),
                     totalSize := totalSize exampleL1 + sum_list (map Size [exampleT4])
                        - sum_list (map Size (take (r - l) (drop l (tables exampleL1))))\<rparr>,
                   refs', err)"
      and sp: "(refs', err) =
                 decrRefs_spec (\<lambda>t. False) (take (r - l) (drop l (tables exampleL1)))
                   (\<lambda>t. 1 + int (count_list [exampleT4] t))"
      by blast
    have lr: "l = 0" "r = 2" using o ov unfolding k by simp_all
    have res: "refs' = (\<lambda>t. 1 + int (count_list [exampleT4] t)
                               - int (count_list [exampleT1, exampleT2] t))" "err = None"
    proof -
      have "(refs', err) = decrRefs_spec (\<lambda>t. False) [exampleT1, exampleT2]
                             (\<lambda>t. 1 + int (count_list [exampleT4] t))"
        using sp unfolding lr ts by (simp del: count_list.simps)
      then have "(refs', err) = (\<lambda>t. 1 + int (count_list [exampleT4] t)
                       - int (count_list [exampleT1, exampleT2] t), None)"
        unfolding sp0 .
      then show "refs' = (\<lambda>t. 1 + int (count_list [exampleT4] t)
                               - int (count_list [exampleT1, exampleT2] t))" "err = None"
        by blast+
    qed
    have "replaceTables (\<lambda>t. False) exampleL1 (\<lambda>t. 1) [exampleT4] =
         Inr (exampleL1\<lparr>tables := [exampleT4], totalSize := 33\<rparr>, refs', None)"
      using run unfolding lr ts res(2) by (simp add: sz)
    moreover have "refs' exampleT1 = 0 \<and> refs' exampleT2 = 0 \<and> refs' exampleT4 = 2"
      unfolding res(1) using ne by simp
    ultimately show ?thesis by blast
  qed
  have run1: "\<exists>refs'. replaceTables (\<lambda>t. ID t = 1) exampleL1 (\<lambda>t. 1) [exampleT4] =
         Inr (exampleL1\<lparr>tables := [exampleT4], totalSize := 33\<rparr>, refs',
              Some (RemoveFailed 1))
       \<and> refs' exampleT1 = 0 \<and> refs' exampleT2 = 1 \<and> refs' exampleT4 = 2"
  proof -
    from replaceTables_splice[OF h, of "\<lambda>t. ID t = 1" "\<lambda>t. 1"]
    obtain l r refs' err where
      o: "overlappingTables exampleL1
            (KeyRange (Smallest (hd [exampleT4])) (Biggest (last [exampleT4]))) = (l, r)"
      and run: "replaceTables (\<lambda>t. ID t = 1) exampleL1 (\<lambda>t. 1) [exampleT4] =
              Inr (exampleL1\<lparr>tables := take l (tables exampleL1) @ [exampleT4]
                                 @ drop r (tables exampleL1),
                     totalSize := totalSize exampleL1 + sum_list (map Size [exampleT4])
                        - sum_list (map Size (take (r - l) (drop l (tables exampleL1))))\<rparr>,
                   refs', err)"
      and sp: "(refs', err) =
                 decrRefs_spec (\<lambda>t. ID t = 1) (take (r - l) (drop l (tables exampleL1)))
                   (\<lambda>t. 1 + int (count_list [exampleT4] t))"
      by blast
    have lr: "l = 0" "r = 2" using o ov unfolding k by simp_all
    have res: "refs' = (\<lambda>t. 1 + int (count_list [exampleT4] t)
                               - int (count_list [exampleT1] t))"
      "err = Some (RemoveFailed 1)"
    proof -
      have "(refs', err) = decrRefs_spec (\<lambda>t. ID t = 1) [exampleT1, exampleT2]
                             (\<lambda>t. 1 + int (count_list [exampleT4] t))"
        using sp unfolding lr ts by (simp del: count_list.simps)
      then have "(refs', err) = (\<lambda>t. 1 + int (count_list [exampleT4] t)
                       - int (count_list [exampleT1] t), Some (RemoveFailed 1))"
        unfolding sp1 .
      then show "refs' = (\<lambda>t. 1 + int (count_list [exampleT4] t)
                               - int (count_list [exampleT1] t))"
        "err = Some (RemoveFailed 1)"
        by blast+
    qed
    have "replaceTables (\<lambda>t. ID t = 1) exampleL1 (\<lambda>t. 1) [exampleT4] =
         Inr (exampleL1\<lparr>tables := [exampleT4], totalSize := 33\<rparr>, refs',
              Some (RemoveFailed 1))"
      using run unfolding lr ts res(2) by (simp add: sz)
    moreover have "refs' exampleT1 = 0 \<and> refs' exampleT2 = 1 \<and> refs' exampleT4 = 2"
      unfolding res(1) using ne by simp
    ultimately show ?thesis by blast
  qed
  show ?thesis using h ov run0 run1 by blast
qed

text \<open>
  C2 as stated fails in its last part: the call returns an \<open>error\<close> (here nil), not the
  replaced tables, and when it returns their reference counts have already been
  decremented (from 1 to 0 here), so nothing is left to the caller.
\<close>

theorem replaceTables_returns_counterexample:
  "(case replaceTables (\<lambda>t. False) exampleL1 (\<lambda>t. 1) [exampleT4] of
      Inl p \<Rightarrow> False
    | Inr (s', refs', err) \<Rightarrow>
        tables s' = [exampleT4] \<and> err = None
        \<and> refs' exampleT1 = 0 \<and> refs' exampleT2 = 0 \<and> refs' exampleT4 = 2)"
  by (simp add: replaceTables_def overlappingTables_def getTablesInRange_def Search_def
      search_loop.simps IncrRef_def DecrRef_def Let_def
      exampleL1_def exampleT1_def exampleT2_def exampleT4_def)

section \<open>The order of the tables under mutations\<close>

lemma replaceTables_keeps_order:
  assumes adj: "successively (\<lambda>t u. Biggest t < Smallest u) (tables s)"
    and run: "replaceTables rm_fails s refs new = Inr (s', refs', err)"
  shows "level s' = level s \<and> successively (\<lambda>t u. Biggest t < Smallest u) (tables s')"
proof (cases "new = []")
  case True
  then show ?thesis using adj run by (simp add: replaceTables_def)
next
  case False
  obtain l r where g:
    "getTablesInRange (tables s) (Smallest (hd new)) (Biggest (last new)) = (l, r)"
    by (cases "getTablesInRange (tables s) (Smallest (hd new)) (Biggest (last new))")
  have "assertTablesOrder (tables s') \<and> level s' = level s"
    using run unfolding replaceTables_closed[OF False g] by (auto split: if_splits)
  then show ?thesis using assertTablesOrder_adjacent by blast
qed

lemma deleteTables_keeps_order:
  assumes lv: "level s \<noteq> 0"
    and run: "deleteTables rm_fails s refs toDel = Inr (s', refs', err)"
  shows "level s' = level s \<and> successively (\<lambda>t u. Biggest t < Smallest u) (tables s')"
proof -
  have "assertTablesOrder (tables s') \<and> level s' = level s"
    using run lv unfolding deleteTables_closed by (auto split: if_splits)
  then show ?thesis using assertTablesOrder_adjacent by blast
qed

lemma apply_mutation_keeps_order:
  assumes "level s \<noteq> 0" "successively (\<lambda>t u. Biggest t < Smallest u) (tables s)"
    and "apply_mutation rm_fails (s, refs) m = Inr (s', refs')"
  shows "level s' \<noteq> 0 \<and> successively (\<lambda>t u. Biggest t < Smallest u) (tables s')"
proof (cases m)
  case (ReplaceTables new)
  then obtain err where "replaceTables rm_fails s refs new = Inr (s', refs', err)"
    using assms(3) by (auto split: sum.splits)
  then show ?thesis using replaceTables_keeps_order[OF assms(2)] assms(1) by metis
next
  case (DeleteTables toDel)
  then obtain err where "deleteTables rm_fails s refs toDel = Inr (s', refs', err)"
    using assms(3) by (auto split: sum.splits)
  then show ?thesis using deleteTables_keeps_order[OF assms(1)] assms(1) by metis
qed

lemma apply_mutations_keep_order:
  assumes "level s \<noteq> 0" "successively (\<lambda>t u. Biggest t < Smallest u) (tables s)"
    and "apply_mutations rm_fails (s, refs) ms = Inr (s', refs')"
  shows "successively (\<lambda>t u. Biggest t < Smallest u) (tables s')"
  using assms
proof (induction ms arbitrary: s refs)
  case Nil
  then show ?case by simp
next
  case (Cons m ms)
  then obtain s1 refs1 where st: "apply_mutation rm_fails (s, refs) m = Inr (s1, refs1)"
    and rest: "apply_mutations rm_fails (s1, refs1) ms = Inr (s', refs')"
    by (auto split: sum.splits)
  show ?case
    using Cons.IH[OF _ _ rest] apply_mutation_keeps_order[OF Cons.prems(1,2) st] by simp
qed

lemma apply_mutation_total:
  assumes inv: "levelN_invariant (tables s)"
    and new: "\<And>new. m = ReplaceTables new \<Longrightarrow> levelN_invariant new"
  shows "\<exists>s' refs'. apply_mutation rm_fails (s, refs) m = Inr (s', refs')
            \<and> levelN_invariant (tables s')"
proof (cases m)
  case (ReplaceTables new')
  show ?thesis
  proof (cases "new' = []")
    case True
    then show ?thesis using inv ReplaceTables by (simp add: replaceTables_def)
  next
    case False
    obtain l r where g:
      "getTablesInRange (tables s) (Smallest (hd new')) (Biggest (last new')) = (l, r)"
      by (cases "getTablesInRange (tables s) (Smallest (hd new')) (Biggest (last new'))")
    note n = new[OF ReplaceTables]
    show ?thesis
      using replaceTables_invariant[OF inv n False g, of rm_fails refs]
        splice_invariant[OF inv n False g] ReplaceTables
      by (auto split: prod.splits)
  qed
next
  case (DeleteTables toDel)
  have "levelN_invariant (filter (\<lambda>t. ID t \<notin> ID ` set toDel) (tables s))"
    using inv by (rule levelN_invariant_filter)
  then show ?thesis
    using DeleteTables levelN_invariant_assert
    by (auto simp: deleteTables_closed split: prod.splits)
qed

lemma apply_mutations_total:
  assumes "levelN_invariant (tables s)"
    and "\<And>new. ReplaceTables new \<in> set ms \<Longrightarrow> levelN_invariant new"
  shows "\<exists>s' refs'. apply_mutations rm_fails (s, refs) ms = Inr (s', refs')
            \<and> levelN_invariant (tables s')"
  using assms
proof (induction ms arbitrary: s refs)
  case Nil
  then show ?case by simp
next
  case (Cons m ms)
  obtain s1 refs1 where st: "apply_mutation rm_fails (s, refs) m = Inr (s1, refs1)"
    and inv1: "levelN_invariant (tables s1)"
    using apply_mutation_total[OF Cons.prems(1), of m rm_fails refs] Cons.prems(2) by auto
  show ?case using Cons.IH[OF inv1, of refs1] Cons.prems(2) st by auto
qed

text \<open>
  C3. At a level other than 0 whose adjacent tables are strictly apart, every run of
  \<open>replaceTables\<close> and \<open>deleteTables\<close> calls that returns leaves adjacent tables strictly
  apart: \<open>tables[i].biggest < tables[i+1].smallest\<close>. The run does return, without a
  failed assertion, when the handler starts from the invariant and every list of new
  tables satisfies it (strictly ordered tables with proper ranges); it then ends in the
  invariant again.
\<close>

theorem mutations_keep_tables_ordered:
  assumes "level s \<ge> 1" and "successively (\<lambda>t u. Biggest t < Smallest u) (tables s)"
  shows "(\<forall>s' refs'. apply_mutations rm_fails (s, refs) ms = Inr (s', refs')
            \<longrightarrow> successively (\<lambda>t u. Biggest t < Smallest u) (tables s'))
         \<and> (levelN_invariant (tables s)
              \<and> (\<forall>new. ReplaceTables new \<in> set ms \<longrightarrow> levelN_invariant new)
            \<longrightarrow> (\<exists>s' refs'. apply_mutations rm_fails (s, refs) ms = Inr (s', refs')
                    \<and> levelN_invariant (tables s')
                    \<and> successively (\<lambda>t u. Biggest t < Smallest u) (tables s')))"
proof -
  have lv: "level s \<noteq> 0" using assms(1) by simp
  have a: "\<forall>s' refs'. apply_mutations rm_fails (s, refs) ms = Inr (s', refs')
            \<longrightarrow> successively (\<lambda>t u. Biggest t < Smallest u) (tables s')"
    using apply_mutations_keep_order[OF lv assms(2)] by blast
  have b: "\<exists>s' refs'. apply_mutations rm_fails (s, refs) ms = Inr (s', refs')
                    \<and> levelN_invariant (tables s')
                    \<and> successively (\<lambda>t u. Biggest t < Smallest u) (tables s')"
    if "levelN_invariant (tables s)" "\<forall>new. ReplaceTables new \<in> set ms \<longrightarrow> levelN_invariant new"
    using apply_mutations_total[OF that(1), of ms rm_fails refs] that(2) levelN_invariant_adjacent
    by blast
  show ?thesis using a b by blast
qed


theorem mutations_keep_tables_ordered_witness:
  "level exampleL1 \<ge> 1
   \<and> successively (\<lambda>t u. Biggest t < Smallest u) (tables exampleL1)
   \<and> levelN_invariant (tables exampleL1) \<and> levelN_invariant [exampleT5]
   \<and> (\<exists>s' refs'. apply_mutations (\<lambda>t. False) (exampleL1, \<lambda>t. 1)
                      [ReplaceTables [exampleT5], DeleteTables [exampleT1]] = Inr (s', refs')
         \<and> tables s' = [exampleT5, exampleT2]
         \<and> successively (\<lambda>t u. Biggest t < Smallest u) (tables s'))"
proof -
  have h: "level exampleL1 \<ge> 1" "successively (\<lambda>t u. Biggest t < Smallest u) (tables exampleL1)"
    by (simp_all add: exampleL1_def exampleT1_def exampleT2_def)
  have i: "levelN_invariant (tables exampleL1)" "levelN_invariant [exampleT5]"
    by (simp_all add: levelN_invariant_def valid_range_def exampleL1_def exampleT1_def
        exampleT2_def exampleT5_def)
  have run: "\<exists>s' refs'. apply_mutations (\<lambda>t. False) (exampleL1, \<lambda>t. 1)
                      [ReplaceTables [exampleT5], DeleteTables [exampleT1]] = Inr (s', refs')
         \<and> tables s' = [exampleT5, exampleT2]"
    by (simp add: replaceTables_def deleteTables_def overlappingTables_def getTablesInRange_def
        Search_def search_loop.simps IncrRef_def DecrRef_def Let_def
        exampleL1_def exampleT1_def exampleT2_def exampleT5_def)
  show ?thesis
    using h i run
      mutations_keep_tables_ordered[OF h, of "\<lambda>t. False" "\<lambda>t. 1"
        "[ReplaceTables [exampleT5], DeleteTables [exampleT1]]"]
    by auto
qed

section \<open>Sorting a slice\<close>

lemma mset_insert_less: "mset (insert_less lt x xs) = add_mset x (mset xs)"
  by (induction xs) auto

lemma mset_fold_insert_less: "mset (fold (insert_less lt) xs acc) = mset xs + mset acc"
  by (induction xs arbitrary: acc) (auto simp: mset_insert_less)

lemma mset_sort_Slice: "mset (sort_Slice lt xs) = mset xs"
  by (simp add: sort_Slice_def mset_fold_insert_less)





section \<open>The total size\<close>

lemma sum_list_Size_sort_Slice:
  "sum_list (map Size (sort_Slice lt ts)) = (sum_list (map Size ts) :: int64)"
proof -
  have "mset (map Size (sort_Slice lt ts)) = mset (map Size ts)"
    by (simp add: mset_sort_Slice)
  then show ?thesis by (metis sum_mset_sum_list)
qed

lemma take_mid_drop: "l \<le> r \<Longrightarrow> take l ts @ take (r - l) (drop l ts) @ drop r ts = ts"
proof -
  assume "l \<le> r"
  then have "drop r ts = drop (r - l) (drop l ts)" by simp
  then show ?thesis by (metis append_take_drop_id)
qed

lemma replaceTables_size:
  assumes acc: "totalSize s = sum_list (map Size (tables s))"
    and run: "replaceTables rm_fails s refs new = Inr (s', refs', err)"
  shows "totalSize s' = sum_list (map Size (tables s'))"
proof (cases "new = []")
  case True
  then show ?thesis using acc run by (simp add: replaceTables_def)
next
  case False
  obtain l r where g:
    "getTablesInRange (tables s) (Smallest (hd new)) (Biggest (last new)) = (l, r)"
    by (cases "getTablesInRange (tables s) (Smallest (hd new)) (Biggest (last new))")
  have lr: "l \<le> r"
    and t: "tables s' = take l (tables s) @ new @ drop r (tables s)"
    and z: "totalSize s' = totalSize s + sum_list (map Size new)
               - sum_list (map Size (take (r - l) (drop l (tables s))))"
    using run unfolding replaceTables_closed[OF False g] by (auto split: if_splits)
  have "sum_list (map Size (tables s))
          = sum_list (map Size (take l (tables s)))
            + sum_list (map Size (take (r - l) (drop l (tables s))))
            + sum_list (map Size (drop r (tables s)))"
    using arg_cong[OF take_mid_drop[OF lr, of "tables s"], of "\<lambda>x. sum_list (map Size x)"]
    by (simp add: add.assoc)
  then show ?thesis unfolding t z acc by simp
qed

lemma deleteTables_size:
  assumes acc: "totalSize s = sum_list (map Size (tables s))"
    and run: "deleteTables rm_fails s refs toDel = Inr (s', refs', err)"
  shows "totalSize s' = sum_list (map Size (tables s'))"
proof -
  let ?P = "\<lambda>t. ID t \<in> ID ` set toDel"
  have t: "tables s' = filter (\<lambda>t. \<not> ?P t) (tables s)"
    and z: "totalSize s' = totalSize s - sum_list (map Size (filter ?P (tables s)))"
    using run unfolding deleteTables_closed by (auto split: if_splits)
  show ?thesis
    unfolding t z acc using sum_list_filter_split[of ?P "tables s"] by (simp add: algebra_simps)
qed

text \<open>
  C4. A new handler has the size accounting, \<open>initTables\<close> establishes it, and
  \<open>tryAddLevel0Table\<close> (when it adds the table), \<open>replaceTables\<close> and \<open>deleteTables\<close> keep
  it: after each of them the total size is the sum of the sizes of the tables then in the
  handler. Sums are those of \<open>int64\<close>, wrapping around as the code's do.
\<close>

theorem total_size_accounted:
  "size_accounted (newLevelHandler lvl)
   \<and> size_accounted (initTables s tbls)
   \<and> (size_accounted s \<longrightarrow>
        (\<forall>s' refs'. tryAddLevel0Table opts s refs t = Inr (True, s', refs') \<longrightarrow> size_accounted s')
        \<and> (\<forall>s' refs' err. replaceTables rm_fails s refs newTables = Inr (s', refs', err)
              \<longrightarrow> size_accounted s')
        \<and> (\<forall>s' refs' err. deleteTables rm_fails s refs toDel = Inr (s', refs', err)
              \<longrightarrow> size_accounted s'))"
proof -
  have n: "size_accounted (newLevelHandler lvl)"
    by (simp add: size_accounted_def newLevelHandler_def)
  have a: "size_accounted (initTables s tbls)"
    by (simp add: size_accounted_def initTables_def fold_add_Size sum_list_Size_sort_Slice)
  have b: "size_accounted s'"
    if "size_accounted s" "tryAddLevel0Table opts s refs t = Inr (True, s', refs')" for s' refs'
    using that by (auto simp: size_accounted_def tryAddLevel0Table_def split: if_splits)
  have c: "size_accounted s'"
    if "size_accounted s" "replaceTables rm_fails s refs newTables = Inr (s', refs', err)"
    for s' refs' err
    using replaceTables_size[of s rm_fails refs newTables s' refs' err] that
    by (simp add: size_accounted_def)
  have d: "size_accounted s'"
    if "size_accounted s" "deleteTables rm_fails s refs toDel = Inr (s', refs', err)"
    for s' refs' err
    using deleteTables_size[of s rm_fails refs toDel s' refs' err] that
    by (simp add: size_accounted_def)
  show ?thesis using n a b c d by blast
qed

theorem total_size_accounted_witness:
  "size_accounted exampleL1
   \<and> size_accounted (initTables exampleL1 [exampleT2, exampleT1])
   \<and> (\<exists>s' refs'. tryAddLevel0Table exampleOpt exampleL0 (\<lambda>t. 1) exampleT3 = Inr (True, s', refs')
         \<and> totalSize s' = 35 \<and> size_accounted s')
   \<and> (\<exists>s' refs' err. replaceTables (\<lambda>t. False) exampleL1 (\<lambda>t. 1) [exampleT5] = Inr (s', refs', err)
         \<and> totalSize s' = 37 \<and> size_accounted s')
   \<and> (\<exists>s' refs' err. deleteTables (\<lambda>t. False) exampleL1 (\<lambda>t. 1) [exampleT1] = Inr (s', refs', err)
         \<and> totalSize s' = 20 \<and> size_accounted s')"
proof -
  have h1: "size_accounted exampleL1" and h0: "size_accounted exampleL0"
    by (simp_all add: size_accounted_def exampleL1_def exampleL0_def exampleT1_def exampleT2_def)
  have r1: "\<exists>s' refs'. tryAddLevel0Table exampleOpt exampleL0 (\<lambda>t. 1) exampleT3 = Inr (True, s', refs')
         \<and> totalSize s' = 35"
    by (simp add: tryAddLevel0Table_def exampleOpt_def exampleL0_def exampleT3_def)
  have r2: "\<exists>s' refs' err. replaceTables (\<lambda>t. False) exampleL1 (\<lambda>t. 1) [exampleT5] = Inr (s', refs', err)
         \<and> totalSize s' = 37"
    by (simp add: replaceTables_def overlappingTables_def getTablesInRange_def
        Search_def search_loop.simps IncrRef_def Let_def
        exampleL1_def exampleT1_def exampleT2_def exampleT5_def)
  have r3: "\<exists>s' refs' err. deleteTables (\<lambda>t. False) exampleL1 (\<lambda>t. 1) [exampleT1] = Inr (s', refs', err)
         \<and> totalSize s' = 20"
    by (simp add: deleteTables_def DecrRef_def Let_def
        exampleL1_def exampleT1_def exampleT2_def)
  show ?thesis
    using h1 r1 r2 r3
      total_size_accounted[of 1 exampleL1 "[exampleT2, exampleT1]" exampleOpt "\<lambda>t. 1" exampleT3
        "\<lambda>t. False" "[exampleT5]" "[exampleT1]"]
      total_size_accounted[of 0 exampleL0 "[exampleT2, exampleT1]" exampleOpt "\<lambda>t. 1" exampleT3
        "\<lambda>t. False" "[exampleT5]" "[exampleT1]"] h0
    by blast
qed

section \<open>Picking the levels to compact\<close>


















section \<open>The stall of the admission\<close>

lemma addLevel0Table_run_no_error: "addLevel0Table_run stalled t trace \<noteq> ReturnsErr e"
  by (induction stalled t trace rule: addLevel0Table_run.induct)
    (auto split: sum.splits bool.splits)

lemma waiting_loop:
  assumes "\<forall>(lc, refs) \<in> set trace. length (levels lc) \<ge> 2"
  shows "addLevel0Table_run True t trace =
           (case dropWhile (\<lambda>(lc, refs). \<not> unstalled lc) trace of
              [] \<Rightarrow> Blocked
            | w # rest \<Rightarrow> addLevel0Table_run False t rest)"
  using assms
proof (induction trace)
  case Nil
  then show ?case by simp
next
  case (Cons w trace)
  obtain lc refs where w: "w = (lc, refs)" by (cases w)
  have len: "length (levels lc) \<ge> 2" using Cons.prems w by simp
  then have ne: "levels lc \<noteq> []" "\<not> length (levels lc) \<le> 1" by auto
  have IH: "addLevel0Table_run True t trace =
           (case dropWhile (\<lambda>(lc, refs). \<not> unstalled lc) trace of
              [] \<Rightarrow> Blocked
            | w # rest \<Rightarrow> addLevel0Table_run False t rest)"
    using Cons by simp
  show ?case
    unfolding w using ne IH
    by (simp add: unstalled_def isL0Compactable_def isCompactable_def getTotalSize_def not_le)
qed

text \<open>
  C6 (amended). The only error \<open>addLevel0Table\<close> returns is the one of the manifest
  append. When that append succeeds and level 0 holds \<open>NumLevelZeroTablesStall\<close> tables or
  more at the attempt, the call does not return: it stays blocked through every later
  state in which level 0 has at least \<open>NumLevelZeroTables\<close> tables or the total size of
  level 1 is at least (not: above) its maximal size, and tries again after the first
  state in which level 0 has fewer tables than that and the total size of level 1 is
  strictly below its maximal size. The states are those of level handlers of a controller
  with at least two levels, the first of them level 0.
\<close>

theorem addLevel0Table_stall:
  assumes "\<forall>(lc, refs) \<in> set trace. length (levels lc) \<ge> 2 \<and> level (levels lc ! 0) = 0"
  shows "(addLevel0Table addChanges t trace = ReturnsErr e
            \<longleftrightarrow> addChanges [makeTableCreateChange (ID t) 0] = Some e)
         \<and> (\<forall>lc refs rest.
               addChanges [makeTableCreateChange (ID t) 0] = None
               \<and> trace = (lc, refs) # rest
               \<and> numTables (levels lc ! 0) \<ge> NumLevelZeroTablesStall (opt lc)
               \<longrightarrow> addLevel0Table addChanges t trace =
                     (case dropWhile (\<lambda>(lc', refs'). \<not> unstalled lc') rest of
                        [] \<Rightarrow> Blocked
                      | w # rest' \<Rightarrow> addLevel0Table_run False t rest'))"
proof -
  have a: "addLevel0Table addChanges t trace = ReturnsErr e
            \<longleftrightarrow> addChanges [makeTableCreateChange (ID t) 0] = Some e"
    using addLevel0Table_run_no_error[of False t trace e]
    by (auto simp: addLevel0Table_def split: option.splits)
  have b: "addLevel0Table addChanges t trace =
                     (case dropWhile (\<lambda>(lc', refs'). \<not> unstalled lc') rest of
                        [] \<Rightarrow> Blocked
                      | w # rest' \<Rightarrow> addLevel0Table_run False t rest')"
    if ok: "addChanges [makeTableCreateChange (ID t) 0] = None"
      and tr: "trace = (lc, refs) # rest"
      and full: "numTables (levels lc ! 0) \<ge> NumLevelZeroTablesStall (opt lc)"
    for lc refs rest
  proof -
    have hd: "length (levels lc) \<ge> 2" "level (levels lc ! 0) = 0"
      using assms tr by auto
    have rest: "\<forall>(lc, refs) \<in> set rest. length (levels lc) \<ge> 2"
      using assms tr by auto
    have "addLevel0Table addChanges t trace = addLevel0Table_run True t rest"
      using ok tr hd full
      by (auto simp: addLevel0Table_def tryAddLevel0Table_def numTables_def)
    then show ?thesis using waiting_loop[OF rest, of t] by simp
  qed
  show ?thesis using a b by blast
qed

theorem addLevel0Table_stall_witness:
  "addLevel0Table (\<lambda>cs. None) exampleT5
     [(exampleLc, \<lambda>t. 1), (exampleLc, \<lambda>t. 1), (exampleFullL1, \<lambda>t. 1),
      (exampleHealthy, \<lambda>t. 1), (exampleHealthy, \<lambda>t. 1)]
   = ReturnsNil
       (exampleHealthy\<lparr>levels :=
          (levels exampleHealthy)[0 := \<lparr>tables = [exampleT3, exampleT5], totalSize = 12, level = 0,
                                         maxTotalSize = 0\<rparr>]\<rparr>)
       ((\<lambda>t. 1)(exampleT5 := 2))
   \<and> addLevel0Table (\<lambda>cs. Some AppendFailed) exampleT5 [(exampleHealthy, \<lambda>t. 1)]
       = ReturnsErr AppendFailed"
proof -
  let ?trace = "[(exampleLc, \<lambda>t. 1), (exampleLc, \<lambda>t. 1), (exampleFullL1, \<lambda>t. 1),
      (exampleHealthy, \<lambda>t. 1), (exampleHealthy, \<lambda>t. (1::int))]"
  have h: "\<forall>(lc, refs) \<in> set ?trace. length (levels lc) \<ge> 2 \<and> level (levels lc ! 0) = 0"
    by (simp add: exampleLc_def exampleFullL1_def exampleHealthy_def)
  have h': "\<forall>(lc, refs) \<in> set [(exampleHealthy, \<lambda>t. (1::int))].
              length (levels lc) \<ge> 2 \<and> level (levels lc ! 0) = 0"
    by (simp add: exampleHealthy_def)
  have u: "\<not> unstalled exampleLc" "\<not> unstalled exampleFullL1" "unstalled exampleHealthy"
    by (simp_all add: unstalled_def numTables_def exampleLc_def
        exampleFullL1_def exampleHealthy_def exampleOpt_def)
  have full: "numTables (levels exampleLc ! 0) \<ge> NumLevelZeroTablesStall (opt exampleLc)"
    by (simp add: numTables_def exampleLc_def exampleOpt_def)
  have last: "addLevel0Table_run False exampleT5 [(exampleHealthy, \<lambda>t. 1)]
     = ReturnsNil
       (exampleHealthy\<lparr>levels :=
          (levels exampleHealthy)[0 := \<lparr>tables = [exampleT3, exampleT5], totalSize = 12, level = 0,
                                         maxTotalSize = 0\<rparr>]\<rparr>)
       ((\<lambda>t. 1)(exampleT5 := 2))"
    by (simp add: tryAddLevel0Table_def IncrRef_def exampleHealthy_def exampleOpt_def
        exampleT3_def exampleT5_def)
  show ?thesis
    using addLevel0Table_stall[OF h, of "\<lambda>cs. None" exampleT5 AppendFailed]
      addLevel0Table_stall[OF h', of "\<lambda>cs. Some AppendFailed" exampleT5 AppendFailed]
      u full last
    by simp
qed

text \<open>
  C6 as stated fails when the total size of level 1 equals its maximal size: in that
  state level 0 is below its trigger and level 1 is at most its maximal size, level 0 has
  room for the table, and yet the call stays blocked.
\<close>

theorem addLevel0Table_stall_counterexample:
  "numTables (levels exampleFullL1 ! 0) < NumLevelZeroTables (opt exampleFullL1)
   \<and> sint (totalSize (levels exampleFullL1 ! 1)) \<le> sint (maxTotalSize (levels exampleFullL1 ! 1))
   \<and> numTables (levels exampleFullL1 ! 0) < NumLevelZeroTablesStall (opt exampleFullL1)
   \<and> addLevel0Table (\<lambda>cs. None) exampleT5
        [(exampleLc, \<lambda>t. 1), (exampleFullL1, \<lambda>t. 1), (exampleFullL1, \<lambda>t. 1)] = Blocked"
  by (simp add: addLevel0Table_def tryAddLevel0Table_def numTables_def isL0Compactable_def
      isCompactable_def getTotalSize_def exampleLc_def exampleFullL1_def
      exampleOpt_def)

end
